theory Spec2Isabelle
  imports Complex_Main "HOL-Library.Monad_Syntax"
begin

section \<open>Data model (midi_sampler.h, internal.h, internal_rt.h)\<close>

text \<open>
  Conventions of the embedding.
  \<^item> \<open>float\<close> and \<open>double\<close> values are real numbers. Rounding is modelled where a
    result is converted to an integer (the stage lengths of the envelope, whose
    \<open>float\<close> product is rounded to binary32 before the cast) and nowhere else.
  \<^item> \<open>uint8_t\<close>, \<open>uint16_t\<close>, \<open>uint32_t\<close> and \<open>size_t\<close> values are natural numbers;
    where the source reduces modulo a power of two the reduction is written out.
  \<^item> A pointer is an address (\<open>nat\<close>) in an explicit store, \<open>None\<close> being \<open>NULL\<close>.
    Sample buffers never change after loading, so a voice's \<open>ms_sample_data_t *\<close> is
    modelled by the sample it points to.
  \<^item> The fixed-size arrays \<open>voices[MS_MAX_VOICES]\<close> and \<open>events[RT_EVENT_QUEUE_SIZE]\<close>
    are functions from the index; PCM data and output buffers are lists, and an access
    outside a list (undefined behaviour in C) makes the model return \<open>None\<close>.
  \<^item> The two builds of the library (\<open>sampler.c\<close>, \<open>voice.c\<close>, \<open>core/envelope.c\<close> and
    \<open>realtime/sampler_rt.c\<close>, \<open>voice_rt.c\<close>, \<open>internal_rt.h\<close>) define functions of the
    same names; the real-time ones carry the suffix \<open>_rt\<close> here. Both builds share
    the record types below, which follow the real-time layout: the extra fields are
    never read by the functions of the other build.
\<close>

datatype ms_error =
    MS_SUCCESS
  | MS_ERROR_INVALID_PARAM
  | MS_ERROR_OUT_OF_MEMORY
  | MS_ERROR_FILE_NOT_FOUND
  | MS_ERROR_INVALID_FORMAT
  | MS_ERROR_BUFFER_OVERFLOW
  | MS_ERROR_NOT_INITIALIZED
  | MS_ERROR_VOICE_LIMIT
  | MS_ERROR_UNKNOWN

record ms_audio_config =
  sample_rate :: nat
  channels :: nat
  max_polyphony :: nat
  buffer_size :: nat

record ms_envelope =
  attack_time :: real
  decay_time :: real
  sustain_level :: real
  release_time :: real

record ms_sample_metadata =
  root_note :: nat
  velocity_low :: nat
  velocity_high :: nat
  loop_enabled :: bool
  loop_start :: nat
  loop_end :: nat

record ms_sample_data =
  data :: "real list"
  num_frames :: nat
  s_channels :: nat
  meta :: ms_sample_metadata

datatype envelope_stage = ENV_IDLE | ENV_ATTACK | ENV_DECAY | ENV_SUSTAIN | ENV_RELEASE

record envelope_generator =
  stage :: envelope_stage
  current_level :: real
  env_sample_rate :: real
  params :: ms_envelope
  attack_coeff :: real
  decay_coeff :: real
  release_coeff :: real
  stage_samples :: nat
  samples_processed :: nat

record voice =
  active :: bool
  voice_id :: nat
  v_note :: nat
  v_velocity :: nat
  v_sample :: "ms_sample_data option"
  playback_position :: real
  playback_speed :: real
  v_envelope :: envelope_generator
  pitch_bend_multiplier :: real
  velocity_gain :: real
  v_instrument :: "nat option"

record rt_event =
  ev_note :: nat
  ev_velocity :: nat
  event_type :: nat
  ev_instrument :: "nat option"

record rt_event_queue =
  write_idx :: nat
  read_idx :: nat
  events :: "nat \<Rightarrow> rt_event"

record ms_instrument =
  samples :: "ms_sample_data list"
  envelope :: ms_envelope
  pitch_bend_range :: real
  current_pitch_bend :: int
  sampler :: "nat option"

record ms_sampler =
  config :: ms_audio_config
  voices :: "nat \<Rightarrow> voice"
  next_voice_id :: nat
  event_queue :: rt_event_queue
  current_track :: "nat option"
  playback_event_index :: nat
  playback_sample_count :: nat
  is_playing :: bool
  frames_processed :: nat
  xruns :: nat

record heap =
  instruments :: "nat \<rightharpoonup> ms_instrument"
  samplers :: "nat \<rightharpoonup> ms_sampler"


definition MS_MAX_VOICES :: nat where
  "MS_MAX_VOICES = 64"

definition RT_EVENT_QUEUE_SIZE :: nat where
  "RT_EVENT_QUEUE_SIZE = 256"

section \<open>Lock-free event queue (internal_rt.h)\<close>

text \<open>
  The atomics and their memory ordering are not modelled: a push or a pop is one step,
  so the model covers one producer and one consumer whose calls interleave as wholes.
  A failed pop leaves \<open>*event\<close> untouched; the model returns \<open>None\<close> for \<open>false\<close> and
  the event read for \<open>true\<close>.
\<close>

definition rt_queue_push :: "rt_event_queue \<Rightarrow> rt_event \<Rightarrow> bool \<times> rt_event_queue" where
  "rt_queue_push q event =
     (let w = write_idx q;
          next_write = (w + 1) mod RT_EVENT_QUEUE_SIZE;
          r = read_idx q
      in if next_write = r then (False, q)
         else (True, q\<lparr>events := (events q)(w := event), write_idx := next_write\<rparr>))"

definition rt_queue_pop :: "rt_event_queue \<Rightarrow> rt_event option \<times> rt_event_queue" where
  "rt_queue_pop q =
     (let r = read_idx q;
          w = write_idx q
      in if r = w then (None, q)
         else (Some (events q r), q\<lparr>read_idx := (r + 1) mod RT_EVENT_QUEUE_SIZE\<rparr>))"

text \<open>
  \<open>ms_note_on\<close> of \<open>sampler_rt.c\<close>. The last argument \<open>vid\<close> is the cell \<open>voice_id\<close> points to
  (\<open>None\<close> for a \<open>NULL\<close> pointer); the result holds the return code, the store and that
  cell after the call. Following a pointer that is not in the store is undefined.
\<close>

definition ms_note_on_rt ::
  "heap \<Rightarrow> nat option \<Rightarrow> nat \<Rightarrow> nat \<Rightarrow> nat option \<Rightarrow> (ms_error \<times> heap \<times> nat option) option" where
  "ms_note_on_rt h instrument note velocity vid =
     (case instrument of
        None \<Rightarrow> Some (MS_ERROR_INVALID_PARAM, h, vid)
      | Some ip \<Rightarrow> do {
          inst \<leftarrow> instruments h ip;
          case sampler inst of
            None \<Rightarrow> Some (MS_ERROR_INVALID_PARAM, h, vid)
          | Some sp \<Rightarrow> do {
              s \<leftarrow> samplers h sp;
              let event = \<lparr>ev_note = note, ev_velocity = velocity, event_type = 0,
                            ev_instrument = Some ip\<rparr>;
              case rt_queue_push (event_queue s) event of
                (False, _) \<Rightarrow> Some (MS_ERROR_BUFFER_OVERFLOW, h, vid)
              | (True, q) \<Rightarrow>
                  Some (MS_SUCCESS,
                        h\<lparr>samplers := (samplers h)(sp \<mapsto> s\<lparr>event_queue := q\<rparr>)\<rparr>,
                        vid)
            }
        })"

definition ms_note_off_rt :: "heap \<Rightarrow> nat option \<Rightarrow> nat \<Rightarrow> (ms_error \<times> heap) option" where
  "ms_note_off_rt h instrument note =
     (case instrument of
        None \<Rightarrow> Some (MS_ERROR_INVALID_PARAM, h)
      | Some ip \<Rightarrow> do {
          inst \<leftarrow> instruments h ip;
          case sampler inst of
            None \<Rightarrow> Some (MS_ERROR_INVALID_PARAM, h)
          | Some sp \<Rightarrow> do {
              s \<leftarrow> samplers h sp;
              let event = \<lparr>ev_note = note, ev_velocity = 0, event_type = 1,
                            ev_instrument = Some ip\<rparr>;
              case rt_queue_push (event_queue s) event of
                (False, _) \<Rightarrow> Some (MS_ERROR_BUFFER_OVERFLOW, h)
              | (True, q) \<Rightarrow>
                  Some (MS_SUCCESS,
                        h\<lparr>samplers := (samplers h)(sp \<mapsto> s\<lparr>event_queue := q\<rparr>)\<rparr>)
            }
        })"

text \<open>
  Drivers for the queue: a caller that pushes a list of events one after the other and
  keeps the results, and one that pops a given number of times.
\<close>

fun push_all :: "rt_event_queue \<Rightarrow> rt_event list \<Rightarrow> bool list \<times> rt_event_queue" where
  "push_all q [] = ([], q)"
| "push_all q (e # es) =
     (case rt_queue_push q e of (ok, q') \<Rightarrow>
        (case push_all q' es of (oks, q'') \<Rightarrow> (ok # oks, q'')))"

fun pop_n :: "nat \<Rightarrow> rt_event_queue \<Rightarrow> rt_event option list \<times> rt_event_queue" where
  "pop_n 0 q = ([], q)"
| "pop_n (Suc n) q =
     (case rt_queue_pop q of (r, q') \<Rightarrow>
        (case pop_n n q' of (rs, q'') \<Rightarrow> (r # rs, q'')))"

text \<open>The events a queue holds, oldest first: the slots from \<open>read_idx\<close> up to \<open>write_idx\<close>.\<close>

definition queue_contents :: "rt_event_queue \<Rightarrow> rt_event list" where
  "queue_contents q =
     map (\<lambda>i. events q ((read_idx q + i) mod RT_EVENT_QUEUE_SIZE))
       [0 ..< (write_idx q + RT_EVENT_QUEUE_SIZE - read_idx q) mod RT_EVENT_QUEUE_SIZE]"

definition queue_wf :: "rt_event_queue \<Rightarrow> bool" where
  "queue_wf q \<longleftrightarrow> read_idx q < RT_EVENT_QUEUE_SIZE \<and> write_idx q < RT_EVENT_QUEUE_SIZE"

section \<open>Sample resolution (sampler.c, sampler_rt.c)\<close>

text \<open>
  \<open>instrument_find_sample\<close> is the same in both builds (the real-time one only adds a
  prefetch). \<open>note - root_note\<close> is computed in \<open>int\<close> after integer promotion. Each of
  the two loops carries \<open>best_match\<close> and \<open>min_note_distance\<close>.
\<close>

definition note_distance :: "nat \<Rightarrow> ms_sample_data \<Rightarrow> int" where
  "note_distance note s = \<bar>int note - int (root_note (meta s))\<bar>"

fun find_velocity_loop ::
  "nat \<Rightarrow> nat \<Rightarrow> ms_sample_data list \<Rightarrow> ms_sample_data option \<times> int
     \<Rightarrow> ms_sample_data option \<times> int" where
  "find_velocity_loop note velocity [] st = st"
| "find_velocity_loop note velocity (s # ss) (best_match, min_note_distance) =
     (if velocity \<ge> velocity_low (meta s) \<and> velocity \<le> velocity_high (meta s)
      then (if note_distance note s < min_note_distance
            then find_velocity_loop note velocity ss (Some s, note_distance note s)
            else find_velocity_loop note velocity ss (best_match, min_note_distance))
      else find_velocity_loop note velocity ss (best_match, min_note_distance))"

fun find_closest_loop ::
  "nat \<Rightarrow> ms_sample_data list \<Rightarrow> ms_sample_data option \<times> int
     \<Rightarrow> ms_sample_data option \<times> int" where
  "find_closest_loop note [] st = st"
| "find_closest_loop note (s # ss) (best_match, min_note_distance) =
     (if note_distance note s < min_note_distance
      then find_closest_loop note ss (Some s, note_distance note s)
      else find_closest_loop note ss (best_match, min_note_distance))"

definition instrument_find_sample ::
  "ms_instrument option \<Rightarrow> nat \<Rightarrow> nat \<Rightarrow> ms_sample_data option" where
  "instrument_find_sample instrument note velocity =
     (case instrument of
        None \<Rightarrow> None
      | Some inst \<Rightarrow>
          (case find_velocity_loop note velocity (samples inst) (None, 128) of
             (best_match, min_note_distance) \<Rightarrow>
               if best_match = None \<and> length (samples inst) > 0
               then fst (find_closest_loop note (samples inst) (best_match, min_note_distance))
               else best_match))"

section \<open>Envelope generator (core/envelope.c, realtime/envelope_rt.c, internal_rt.h)\<close>

text \<open>
  The envelope functions are modelled on the generator itself: their callers pass the
  address of the generator embedded in a voice, never \<open>NULL\<close>.

  \<open>(uint32_t)x\<close> truncates towards zero. C leaves the conversion undefined when the
  truncated value does not fit (\<open>x \<le> -1\<close> or \<open>x \<ge> 2^32\<close>); the model returns 0 there.
\<close>

definition to_uint32 :: "real \<Rightarrow> nat" where
  "to_uint32 x = (if -1 < x \<and> x < 2 ^ 32 then nat \<lfloor>x\<rfloor> else 0)"

text \<open>
  The stage lengths are \<open>(uint32_t)(time * sample_rate)\<close> with both operands \<open>float\<close>, so
  the product is a \<open>float\<close>: the real product rounded to the nearest binary32 value
  (24-bit significand, exponents from -126 to 127, subnormals included), ties to the even
  significand. A product beyond the largest \<open>float\<close> is infinite in C; here it stays
  above \<open>2^32\<close>, where the conversion is undefined in any case.
\<close>

definition round_even :: "real \<Rightarrow> int" where
  "round_even r =
     (let f = \<lfloor>r\<rfloor>
      in if r - of_int f < 1/2 then f
         else if r - of_int f > 1/2 then f + 1
         else if even f then f else f + 1)"

definition float_exponent :: "real \<Rightarrow> int" where
  "float_exponent x =
     (case find (\<lambda>e. 2 powi e \<le> \<bar>x\<bar>) (rev [-126 .. 127]) of
        Some e \<Rightarrow> e
      | None \<Rightarrow> -126)"

definition float_round :: "real \<Rightarrow> real" where
  "float_round x =
     (let q = 2 powi (float_exponent x - 23)
      in of_int (round_even (x / q)) * q)"

definition float_mul :: "real \<Rightarrow> real \<Rightarrow> real" where
  "float_mul x y = float_round (x * y)"

definition envelope_init :: "real \<Rightarrow> ms_envelope \<Rightarrow> envelope_generator" where
  "envelope_init sr p =
     \<lparr>stage = ENV_IDLE, current_level = 0, env_sample_rate = sr, params = p,
      attack_coeff = 0, decay_coeff = 0, release_coeff = 0,
      stage_samples = 0, samples_processed = 0\<rparr>"

definition envelope_init_rt :: "real \<Rightarrow> ms_envelope \<Rightarrow> envelope_generator" where
  "envelope_init_rt sr p =
     (let attack_samples = to_uint32 (float_mul (attack_time p) sr);
          decay_samples = to_uint32 (float_mul (decay_time p) sr);
          release_samples = to_uint32 (float_mul (release_time p) sr)
      in \<lparr>stage = ENV_IDLE, current_level = 0, env_sample_rate = sr, params = p,
          attack_coeff = (if attack_samples > 0 then 1 / real attack_samples else 1),
          decay_coeff = (if decay_samples > 0
                         then (1 - sustain_level p) / real decay_samples else 0),
          release_coeff = (if release_samples > 0
                           then sustain_level p / real release_samples
                           else sustain_level p),
          stage_samples = 0, samples_processed = 0\<rparr>)"

text \<open>\<open>envelope_trigger\<close> and \<open>envelope_release\<close> are the same in both builds.\<close>

definition envelope_trigger :: "envelope_generator \<Rightarrow> envelope_generator" where
  "envelope_trigger env =
     (let n = to_uint32 (float_mul (attack_time (params env)) (env_sample_rate env))
      in env\<lparr>stage := ENV_ATTACK,
              stage_samples := (if n = 0 then 1 else n),
              samples_processed := 0\<rparr>)"

definition envelope_release :: "envelope_generator \<Rightarrow> envelope_generator" where
  "envelope_release env =
     (let n = to_uint32 (float_mul (release_time (params env)) (env_sample_rate env))
      in env\<lparr>stage := ENV_RELEASE,
              stage_samples := (if n = 0 then 1 else n),
              samples_processed := 0\<rparr>)"

definition clamp_level :: "envelope_generator \<Rightarrow> envelope_generator" where
  "clamp_level env =
     (let env1 = (if current_level env < 0 then env\<lparr>current_level := 0\<rparr> else env)
      in if current_level env1 > 1 then env1\<lparr>current_level := 1\<rparr> else env1)"

text \<open>\<open>envelope_process\<close> of \<open>core/envelope.c\<close>: the level returned and the generator after.\<close>

definition envelope_process :: "envelope_generator \<Rightarrow> real \<times> envelope_generator" where
  "envelope_process env =
     (let output = current_level env;
          env' =
            (case stage env of
               ENV_IDLE \<Rightarrow> env\<lparr>current_level := 0\<rparr>
             | ENV_ATTACK \<Rightarrow>
                 if samples_processed env < stage_samples env
                 then env\<lparr>current_level :=
                            real (samples_processed env) / real (stage_samples env),
                          samples_processed := (samples_processed env + 1) mod 2 ^ 32\<rparr>
                 else (let n = to_uint32 (float_mul (decay_time (params env))
                                            (env_sample_rate env))
                       in env\<lparr>stage := ENV_DECAY,
                               stage_samples := (if n = 0 then 1 else n),
                               samples_processed := 0,
                               current_level := 1\<rparr>)
             | ENV_DECAY \<Rightarrow>
                 if samples_processed env < stage_samples env
                 then (let t = real (samples_processed env) / real (stage_samples env)
                       in env\<lparr>current_level := 1 - t * (1 - sustain_level (params env)),
                               samples_processed := (samples_processed env + 1) mod 2 ^ 32\<rparr>)
                 else env\<lparr>stage := ENV_SUSTAIN,
                          current_level := sustain_level (params env)\<rparr>
             | ENV_SUSTAIN \<Rightarrow> env\<lparr>current_level := sustain_level (params env)\<rparr>
             | ENV_RELEASE \<Rightarrow>
                 if samples_processed env < stage_samples env
                 then (let start_level = sustain_level (params env);
                           t = real (samples_processed env) / real (stage_samples env)
                       in env\<lparr>current_level := start_level * (1 - t),
                               samples_processed := (samples_processed env + 1) mod 2 ^ 32\<rparr>)
                 else env\<lparr>stage := ENV_IDLE, current_level := 0\<rparr>)
      in (output, clamp_level env'))"

text \<open>
  \<open>envelope_process\<close> of \<open>internal_rt.h\<close>: the Idle case returns 0 at once, the other
  stages add or subtract the coefficients computed by \<open>envelope_init_rt\<close>.
\<close>

definition envelope_process_rt :: "envelope_generator \<Rightarrow> real \<times> envelope_generator" where
  "envelope_process_rt env =
     (let output = current_level env
      in case stage env of
           ENV_IDLE \<Rightarrow> (0, env)
         | ENV_ATTACK \<Rightarrow>
             (output, clamp_level
                (if samples_processed env < stage_samples env
                 then env\<lparr>current_level := current_level env + attack_coeff env,
                          samples_processed := (samples_processed env + 1) mod 2 ^ 32\<rparr>
                 else env\<lparr>stage := ENV_DECAY,
                          stage_samples :=
                            to_uint32 (float_mul (decay_time (params env)) (env_sample_rate env)),
                          samples_processed := 0,
                          current_level := 1\<rparr>))
         | ENV_DECAY \<Rightarrow>
             (output, clamp_level
                (if samples_processed env < stage_samples env
                 then env\<lparr>current_level := current_level env - decay_coeff env,
                          samples_processed := (samples_processed env + 1) mod 2 ^ 32\<rparr>
                 else env\<lparr>stage := ENV_SUSTAIN,
                          current_level := sustain_level (params env)\<rparr>))
         | ENV_SUSTAIN \<Rightarrow>
             (output, clamp_level (env\<lparr>current_level := sustain_level (params env)\<rparr>))
         | ENV_RELEASE \<Rightarrow>
             (output, clamp_level
                (if samples_processed env < stage_samples env
                 then env\<lparr>current_level := current_level env - release_coeff env,
                          samples_processed := (samples_processed env + 1) mod 2 ^ 32\<rparr>
                 else env\<lparr>stage := ENV_IDLE, current_level := 0\<rparr>)))"

definition envelope_is_active :: "envelope_generator \<Rightarrow> bool" where
  "envelope_is_active env \<longleftrightarrow> stage env \<noteq> ENV_IDLE"

text \<open>
  A caller that runs \<open>process()\<close> a number of times: the levels returned, in order, and
  the generator after the last call.
\<close>

fun process_n ::
  "(envelope_generator \<Rightarrow> real \<times> envelope_generator) \<Rightarrow> nat \<Rightarrow> envelope_generator
     \<Rightarrow> real list \<times> envelope_generator" where
  "process_n step 0 env = ([], env)"
| "process_n step (Suc n) env =
     (case step env of (x, env') \<Rightarrow>
        (case process_n step n env' of (xs, env'') \<Rightarrow> (x # xs, env'')))"

section \<open>Voice (voice.c, voice_rt.c)\<close>

text \<open>\<open>midi_note_to_frequency\<close> of \<open>voice.c\<close>; \<open>note - 69\<close> is an \<open>int\<close>.\<close>

definition midi_note_to_frequency :: "nat \<Rightarrow> real" where
  "midi_note_to_frequency note = 440 * 2 powr (real_of_int (int note - 69) / 12)"

definition MIDI_FREQ_TABLE :: "real list" where
  "MIDI_FREQ_TABLE =
     [8.176, 8.662, 9.177, 9.723, 10.301, 10.913, 11.562, 12.250,
      12.978, 13.750, 14.568, 15.434, 16.352, 17.324, 18.354, 19.445,
      20.602, 21.827, 23.125, 24.500, 25.957, 27.500, 29.135, 30.868,
      32.703, 34.648, 36.708, 38.891, 41.203, 43.654, 46.249, 48.999,
      51.913, 55.000, 58.270, 61.735, 65.406, 69.296, 73.416, 77.782,
      82.407, 87.307, 92.499, 97.999, 103.826, 110.000, 116.541, 123.471,
      130.813, 138.591, 146.832, 155.563, 164.814, 174.614, 184.997, 195.998,
      207.652, 220.000, 233.082, 246.942, 261.626, 277.183, 293.665, 311.127,
      329.628, 349.228, 369.994, 391.995, 415.305, 440.000, 466.164, 493.883,
      523.251, 554.365, 587.330, 622.254, 659.255, 698.456, 739.989, 783.991,
      830.609, 880.000, 932.328, 987.767, 1046.502, 1108.731, 1174.659, 1244.508,
      1318.510, 1396.913, 1479.978, 1567.982, 1661.219, 1760.000, 1864.655, 1975.533,
      2093.005, 2217.461, 2349.318, 2489.016, 2637.020, 2793.826, 2959.955, 3135.963,
      3322.438, 3520.000, 3729.310, 3951.066, 4186.009, 4434.922, 4698.636, 4978.032,
      5274.041, 5587.652, 5919.911, 6271.927, 6644.875, 7040.000, 7458.620, 7902.133,
      8372.018, 8869.844, 9397.273, 9956.063, 10548.082, 11175.303, 11839.822, 12543.854]"

text \<open>\<open>midi_note_to_frequency\<close> of \<open>voice_rt.c\<close>; \<open>note & 0x7F\<close> is \<open>note mod 128\<close>.\<close>

definition midi_note_to_frequency_rt :: "nat \<Rightarrow> real" where
  "midi_note_to_frequency_rt note = MIDI_FREQ_TABLE ! (note mod 128)"

text \<open>\<open>memset(voice, 0, sizeof(*voice))\<close>: stage 0 is \<open>ENV_IDLE\<close>.\<close>

definition zero_envelope :: envelope_generator where
  "zero_envelope =
     \<lparr>stage = ENV_IDLE, current_level = 0, env_sample_rate = 0,
      params = \<lparr>attack_time = 0, decay_time = 0, sustain_level = 0, release_time = 0\<rparr>,
      attack_coeff = 0, decay_coeff = 0, release_coeff = 0,
      stage_samples = 0, samples_processed = 0\<rparr>"

definition zero_voice :: voice where
  "zero_voice =
     \<lparr>active = False, voice_id = 0, v_note = 0, v_velocity = 0, v_sample = None,
      playback_position = 0, playback_speed = 0, v_envelope = zero_envelope,
      pitch_bend_multiplier = 0, velocity_gain = 0, v_instrument = None\<rparr>"

text \<open>\<open>voice_init\<close> is the same in both builds; it ignores its \<open>sample_rate\<close> argument.\<close>

definition voice_init :: "nat \<Rightarrow> real \<Rightarrow> voice" where
  "voice_init vid sr = zero_voice\<lparr>voice_id := vid, pitch_bend_multiplier := 1\<rparr>"

definition voice_trigger ::
  "voice \<Rightarrow> ms_sample_data option \<Rightarrow> nat \<Rightarrow> nat \<Rightarrow> ms_envelope option \<Rightarrow> voice" where
  "voice_trigger v smp note velocity env =
     (case (smp, env) of
        (Some s, Some e) \<Rightarrow>
          (let target_freq = midi_note_to_frequency note;
               sample_freq = midi_note_to_frequency (root_note (meta s))
           in v\<lparr>active := True, v_note := note, v_velocity := velocity,
                v_sample := Some s, playback_position := 0,
                playback_speed := (target_freq / sample_freq) * pitch_bend_multiplier v,
                v_envelope := envelope_trigger (envelope_init 44100 e)\<rparr>)
      | _ \<Rightarrow> v)"

definition voice_trigger_rt ::
  "voice \<Rightarrow> ms_sample_data option \<Rightarrow> nat \<Rightarrow> nat \<Rightarrow> ms_envelope option \<Rightarrow> voice" where
  "voice_trigger_rt v smp note velocity env =
     (case (smp, env) of
        (Some s, Some e) \<Rightarrow>
          (let target_freq = midi_note_to_frequency_rt note;
               sample_freq = midi_note_to_frequency_rt (root_note (meta s))
           in v\<lparr>active := True, v_note := note, v_velocity := velocity,
                v_sample := Some s, playback_position := 0,
                velocity_gain := real velocity * (1 / 127),
                playback_speed := (target_freq / sample_freq) * pitch_bend_multiplier v,
                v_envelope := envelope_trigger (envelope_init_rt 44100 e)\<rparr>)
      | _ \<Rightarrow> v)"

definition voice_release :: "voice \<Rightarrow> voice" where
  "voice_release v = v\<lparr>v_envelope := envelope_release (v_envelope v)\<rparr>"

definition voice_is_active :: "voice \<Rightarrow> bool" where
  "voice_is_active v \<longleftrightarrow> active v"

text \<open>Array accesses of the render loop; outside the buffer the behaviour is undefined.\<close>

definition read_at :: "real list \<Rightarrow> nat \<Rightarrow> real option" where
  "read_at xs i = (if i < length xs then Some (xs ! i) else None)"

definition add_at :: "real list \<Rightarrow> nat \<Rightarrow> real \<Rightarrow> real list option" where
  "add_at xs i x = (if i < length xs then Some (xs[i := xs ! i + x]) else None)"

text \<open>
  \<open>(size_t)position\<close> truncates towards zero and is undefined when the truncated value
  does not fit in 64 bits.
\<close>

definition to_size_t :: "real \<Rightarrow> nat option" where
  "to_size_t x = (if -1 < x \<and> x < 2 ^ 64 then Some (nat \<lfloor>x\<rfloor>) else None)"

text \<open>
  The linear interpolation of the loop body, the same text in both builds: a mono
  sample reads frames \<open>index\<close> and \<open>index + 1\<close>, any other channel count reads the left
  channel of an interleaved stereo buffer.
\<close>

definition interpolate :: "ms_sample_data \<Rightarrow> real \<Rightarrow> real option" where
  "interpolate s position =
     do {
       index \<leftarrow> to_size_t position;
       let frac = position - real index;
       if s_channels s = 1
       then do {
         s0 \<leftarrow> read_at (data s) index;
         s1 \<leftarrow> (if index + 1 < num_frames s then read_at (data s) (index + 1) else Some s0);
         Some (s0 + frac * (s1 - s0))
       }
       else do {
         s0 \<leftarrow> read_at (data s) (index * 2);
         s1 \<leftarrow> (if index + 1 < num_frames s then read_at (data s) ((index + 1) * 2)
                else Some s0);
         Some (s0 + frac * (s1 - s0))
       }
     }"

definition mix :: "real list \<Rightarrow> nat \<Rightarrow> bool \<Rightarrow> real \<Rightarrow> real list option" where
  "mix output i stereo_out final_value =
     (if stereo_out
      then do {
        out1 \<leftarrow> add_at output (i * 2) final_value;
        add_at out1 (i * 2 + 1) final_value
      }
      else add_at output i final_value)"

text \<open>
  The \<open>for\<close> loop of \<open>voice_process\<close>, from frame \<open>i\<close> with \<open>k\<close> frames left. Both builds
  run the same loop body; they differ in the envelope step \<open>envp\<close>, in the velocity gain
  and in the test that selects the stereo output layout, which are parameters here.
  The result is the voice, the output buffer and the local \<open>position\<close> at the loop's exit.
\<close>

fun voice_loop ::
  "(envelope_generator \<Rightarrow> real \<times> envelope_generator) \<Rightarrow> ms_sample_data \<Rightarrow> real \<Rightarrow> real
     \<Rightarrow> bool \<Rightarrow> nat \<Rightarrow> nat \<Rightarrow> voice \<Rightarrow> real list \<Rightarrow> real
     \<Rightarrow> (voice \<times> real list \<times> real) option" where
  "voice_loop envp s speed gain stereo_out 0 i v output position = Some (v, output, position)"
| "voice_loop envp s speed gain stereo_out (Suc k) i v output position =
     (if position \<ge> real (num_frames s) \<and>
         \<not> (loop_enabled (meta s) \<and> loop_end (meta s) > loop_start (meta s))
      then Some (v\<lparr>active := False\<rparr>, output, position)
      else do {
        let position1 = (if position \<ge> real (num_frames s)
                         then real (loop_start (meta s)) else position);
        sample_value \<leftarrow> interpolate s position1;
        let (env_level, env') = envp (v_envelope v);
        let final_value = sample_value * env_level * gain;
        output' \<leftarrow> mix output i stereo_out final_value;
        let position2 = position1 + speed;
        let v' = v\<lparr>v_envelope := env'\<rparr>;
        if \<not> envelope_is_active env'
        then Some (v'\<lparr>active := False\<rparr>, output', position2)
        else voice_loop envp s speed gain stereo_out k (Suc i) v' output' position2
      })"

text \<open>
  \<open>voice_process\<close> of \<open>voice.c\<close>. The output buffer is not \<open>NULL\<close>: \<open>ms_process\<close> has
  checked it.
\<close>

definition voice_process :: "voice \<Rightarrow> real list \<Rightarrow> nat \<Rightarrow> nat \<Rightarrow> (voice \<times> real list) option" where
  "voice_process v output n chans =
     (case v_sample v of
        None \<Rightarrow> Some (v, output)
      | Some s \<Rightarrow>
          if \<not> active v then Some (v, output)
          else do {
            (v', output', position) \<leftarrow>
              voice_loop envelope_process s (playback_speed v) (real (v_velocity v) / 127)
                (chans \<noteq> 1) n 0 v output (playback_position v);
            Some (v'\<lparr>playback_position := position\<rparr>, output')
          })"

definition voice_process_rt :: "voice \<Rightarrow> real list \<Rightarrow> nat \<Rightarrow> nat \<Rightarrow> (voice \<times> real list) option" where
  "voice_process_rt v output n chans =
     (case v_sample v of
        None \<Rightarrow> Some (v, output)
      | Some s \<Rightarrow>
          if \<not> active v then Some (v, output)
          else do {
            (v', output', position) \<leftarrow>
              voice_loop envelope_process_rt s (playback_speed v) (velocity_gain v)
                (chans = 2) n 0 v output (playback_position v);
            Some (v'\<lparr>playback_position := position\<rparr>, output')
          })"

section \<open>Sampler (sampler.c, realtime/sampler_rt.c)\<close>

text \<open>
  The sampler \<open>ms_sampler_create\<close> stores through \<open>*sampler\<close> when \<open>config\<close> is not \<open>NULL\<close>
  and the allocation succeeds; the same in both builds. Allocation failures and the
  mutexes are not modelled.
\<close>

definition zero_event :: rt_event where
  "zero_event = \<lparr>ev_note = 0, ev_velocity = 0, event_type = 0, ev_instrument = None\<rparr>"

definition ms_sampler_create :: "ms_audio_config \<Rightarrow> ms_sampler" where
  "ms_sampler_create cfg =
     \<lparr>config = cfg,
      voices = (\<lambda>i. if i < max_polyphony cfg \<and> i < MS_MAX_VOICES
                     then voice_init (i + 1) (real (sample_rate cfg)) else zero_voice),
      next_voice_id = 1 + min (max_polyphony cfg) MS_MAX_VOICES,
      event_queue = \<lparr>write_idx = 0, read_idx = 0, events = (\<lambda>i. zero_event)\<rparr>,
      current_track = None, playback_event_index = 0, playback_sample_count = 0,
      is_playing = False, frames_processed = 0, xruns = 0\<rparr>"

text \<open>The instrument \<open>ms_instrument_create\<close> allocates for the sampler at \<open>sp\<close>, in each build.\<close>

definition ms_instrument_create :: "nat \<Rightarrow> ms_instrument" where
  "ms_instrument_create sp =
     \<lparr>samples = [],
      envelope = \<lparr>attack_time = 0.01, decay_time = 0.1, sustain_level = 0.7,
                  release_time = 0.3\<rparr>,
      pitch_bend_range = 2, current_pitch_bend = 0, sampler = Some sp\<rparr>"

definition ms_instrument_create_rt :: "nat \<Rightarrow> ms_instrument" where
  "ms_instrument_create_rt sp =
     \<lparr>samples = [],
      envelope = \<lparr>attack_time = 0.005, decay_time = 0.05, sustain_level = 0.7,
                  release_time = 0.1\<rparr>,
      pitch_bend_range = 2, current_pitch_bend = 0, sampler = Some sp\<rparr>"


text \<open>
  The scan for a free voice, \<open>for (i = 0; i < max_polyphony && i < MS_MAX_VOICES; i++)\<close>
  leaving at the first inactive slot; slot 0 is taken when there is none.
\<close>

definition pool_size :: "ms_sampler \<Rightarrow> nat" where
  "pool_size s = min (max_polyphony (config s)) MS_MAX_VOICES"

definition find_available_voice :: "ms_sampler \<Rightarrow> nat" where
  "find_available_voice s =
     (case find (\<lambda>i. \<not> active (voices s i)) [0 ..< pool_size s] of
        Some i \<Rightarrow> i
      | None \<Rightarrow> 0)"

text \<open>\<open>ms_note_on\<close> of \<open>sampler.c\<close>; \<open>vid\<close> is the cell \<open>voice_id\<close> points to, as above.\<close>

definition ms_note_on ::
  "heap \<Rightarrow> nat option \<Rightarrow> nat \<Rightarrow> nat \<Rightarrow> nat option \<Rightarrow> (ms_error \<times> heap \<times> nat option) option" where
  "ms_note_on h instrument note velocity vid =
     (case instrument of
        None \<Rightarrow> Some (MS_ERROR_INVALID_PARAM, h, vid)
      | Some ip \<Rightarrow> do {
          inst \<leftarrow> instruments h ip;
          case sampler inst of
            None \<Rightarrow> Some (MS_ERROR_INVALID_PARAM, h, vid)
          | Some sp \<Rightarrow>
              (case instrument_find_sample (Some inst) note velocity of
                 None \<Rightarrow> Some (MS_ERROR_INVALID_PARAM, h, vid)
               | Some smp \<Rightarrow> do {
                   s \<leftarrow> samplers h sp;
                   let j = find_available_voice s;
                   let v = (voice_trigger (voices s j) (Some smp) note velocity
                              (Some (envelope inst)))\<lparr>v_instrument := Some ip\<rparr>;
                   Some (MS_SUCCESS,
                         h\<lparr>samplers := (samplers h)(sp \<mapsto> s\<lparr>voices := (voices s)(j := v)\<rparr>)\<rparr>,
                         (case vid of None \<Rightarrow> None | Some _ \<Rightarrow> Some (voice_id v)))
                 })
        })"

definition release_matching :: "ms_sampler \<Rightarrow> nat \<Rightarrow> nat option \<Rightarrow> ms_sampler" where
  "release_matching s note inst =
     s\<lparr>voices := (\<lambda>j. if j < pool_size s \<and> active (voices s j) \<and> v_note (voices s j) = note
                           \<and> v_instrument (voices s j) = inst
                        then voice_release (voices s j) else voices s j)\<rparr>"

definition ms_note_off :: "heap \<Rightarrow> nat option \<Rightarrow> nat \<Rightarrow> (ms_error \<times> heap) option" where
  "ms_note_off h instrument note =
     (case instrument of
        None \<Rightarrow> Some (MS_ERROR_INVALID_PARAM, h)
      | Some ip \<Rightarrow> do {
          inst \<leftarrow> instruments h ip;
          case sampler inst of
            None \<Rightarrow> Some (MS_ERROR_INVALID_PARAM, h)
          | Some sp \<Rightarrow> do {
              s \<leftarrow> samplers h sp;
              Some (MS_SUCCESS,
                    h\<lparr>samplers := (samplers h)(sp \<mapsto> release_matching s note (Some ip))\<rparr>)
            }
        })"

text \<open>
  \<open>process_events\<close> of \<open>sampler_rt.c\<close>: the body run for a popped event, and the loop of at
  most \<open>RT_EVENT_QUEUE_SIZE\<close> pops. A note-on whose instrument is \<open>NULL\<close> or has no sample
  is skipped.
\<close>

definition process_event :: "heap \<Rightarrow> ms_sampler \<Rightarrow> rt_event \<Rightarrow> ms_sampler option" where
  "process_event h s event =
     (if event_type event = 0
      then (case ev_instrument event of
              None \<Rightarrow> Some s
            | Some ip \<Rightarrow> do {
                inst \<leftarrow> instruments h ip;
                case instrument_find_sample (Some inst) (ev_note event) (ev_velocity event) of
                  None \<Rightarrow> Some s
                | Some smp \<Rightarrow>
                    (let j = find_available_voice s;
                         v = (voice_trigger_rt (voices s j) (Some smp) (ev_note event)
                                (ev_velocity event) (Some (envelope inst)))
                              \<lparr>v_instrument := Some ip\<rparr>
                     in Some (s\<lparr>voices := (voices s)(j := v)\<rparr>))
              })
      else Some (release_matching s (ev_note event) (ev_instrument event)))"

fun process_events_loop :: "nat \<Rightarrow> heap \<Rightarrow> ms_sampler \<Rightarrow> ms_sampler option" where
  "process_events_loop 0 h s = Some s"
| "process_events_loop (Suc k) h s =
     (case rt_queue_pop (event_queue s) of
        (None, _) \<Rightarrow> Some s
      | (Some event, q) \<Rightarrow> do {
          s' \<leftarrow> process_event h (s\<lparr>event_queue := q\<rparr>) event;
          process_events_loop k h s'
        })"

definition process_events :: "heap \<Rightarrow> ms_sampler \<Rightarrow> ms_sampler option" where
  "process_events h s = process_events_loop RT_EVENT_QUEUE_SIZE h s"

text \<open>
  \<open>memset(output, 0, bytes)\<close> on a buffer of floats; writing past its end is undefined.
\<close>

definition clear_output :: "real list \<Rightarrow> nat \<Rightarrow> real list option" where
  "clear_output output bytes =
     (let n = bytes div 4
      in if n \<le> length output then Some (replicate n 0 @ drop n output) else None)"

text \<open>The loop over the pool that renders each active voice with \<open>vp\<close>.\<close>

fun process_voices ::
  "(voice \<Rightarrow> real list \<Rightarrow> nat \<Rightarrow> nat \<Rightarrow> (voice \<times> real list) option) \<Rightarrow> nat list \<Rightarrow> nat \<Rightarrow> nat
     \<Rightarrow> (nat \<Rightarrow> voice) \<Rightarrow> real list \<Rightarrow> ((nat \<Rightarrow> voice) \<times> real list) option" where
  "process_voices vp [] n chans vs output = Some (vs, output)"
| "process_voices vp (i # is) n chans vs output =
     (if active (vs i)
      then do {
        (v', output') \<leftarrow> vp (vs i) output n chans;
        process_voices vp is n chans (vs(i := v')) output'
      }
      else process_voices vp is n chans vs output)"

text \<open>
  \<open>ms_process\<close> of \<open>sampler.c\<close>: the return code, the store and the output buffer after
  the call. The MIDI playback branch of the source is empty.
\<close>

definition ms_process ::
  "heap \<Rightarrow> nat option \<Rightarrow> real list option \<Rightarrow> nat
     \<Rightarrow> (ms_error \<times> heap \<times> real list option) option" where
  "ms_process h smp_ptr output n =
     (case (smp_ptr, output) of
        (Some sp, Some out) \<Rightarrow> do {
          s \<leftarrow> samplers h sp;
          let buffer_size = (n * channels (config s)) mod 2 ^ 64;
          out1 \<leftarrow> clear_output out ((buffer_size * 4) mod 2 ^ 64);
          (vs, out2) \<leftarrow> process_voices voice_process [0 ..< pool_size s] n
                          (channels (config s)) (voices s) out1;
          let s' = s\<lparr>voices := vs,
                     playback_sample_count := (playback_sample_count s + n) mod 2 ^ 64\<rparr>;
          Some (MS_SUCCESS, h\<lparr>samplers := (samplers h)(sp \<mapsto> s')\<rparr>, Some out2)
        }
      | _ \<Rightarrow> Some (MS_ERROR_INVALID_PARAM, h, output))"

text \<open>\<open>ms_process\<close> of \<open>sampler_rt.c\<close>, which first drains the event queue.\<close>

definition ms_process_rt ::
  "heap \<Rightarrow> nat option \<Rightarrow> real list option \<Rightarrow> nat
     \<Rightarrow> (ms_error \<times> heap \<times> real list option) option" where
  "ms_process_rt h smp_ptr output n =
     (case (smp_ptr, output) of
        (Some sp, Some out) \<Rightarrow> do {
          s \<leftarrow> samplers h sp;
          let buffer_size = (n * channels (config s)) mod 2 ^ 64;
          out1 \<leftarrow> clear_output out ((buffer_size * 4) mod 2 ^ 64);
          s1 \<leftarrow> process_events h s;
          (vs, out2) \<leftarrow> process_voices voice_process_rt [0 ..< pool_size s1] n
                          (channels (config s1)) (voices s1) out1;
          let s' = s1\<lparr>voices := vs,
                      frames_processed := (frames_processed s1 + n) mod 2 ^ 64\<rparr>;
          Some (MS_SUCCESS, h\<lparr>samplers := (samplers h)(sp \<mapsto> s')\<rparr>, Some out2)
        }
      | _ \<Rightarrow> Some (MS_ERROR_INVALID_PARAM, h, output))"

section \<open>Scenarios and reference models used by the properties\<close>

text \<open>
  A caller of the queue that interleaves pushes and pops, with the result of each call,
  and the bounded first-in first-out list it is compared with: a push fails on a list of
  \<open>RT_EVENT_QUEUE_SIZE - 1\<close> events, a pop takes the oldest event.
\<close>

datatype queue_op = Push rt_event | Pop

datatype queue_result = Pushed bool | Popped "rt_event option"

fun run_queue :: "rt_event_queue \<Rightarrow> queue_op list \<Rightarrow> queue_result list" where
  "run_queue q [] = []"
| "run_queue q (Push e # ops) =
     (case rt_queue_push q e of (ok, q') \<Rightarrow> Pushed ok # run_queue q' ops)"
| "run_queue q (Pop # ops) =
     (case rt_queue_pop q of (r, q') \<Rightarrow> Popped r # run_queue q' ops)"

fun fifo_spec :: "rt_event list \<Rightarrow> queue_op list \<Rightarrow> queue_result list" where
  "fifo_spec xs [] = []"
| "fifo_spec xs (Push e # ops) =
     (if length xs = RT_EVENT_QUEUE_SIZE - 1 then Pushed False # fifo_spec xs ops
      else Pushed True # fifo_spec (xs @ [e]) ops)"
| "fifo_spec xs (Pop # ops) =
     (case xs of
        [] \<Rightarrow> Popped None # fifo_spec [] ops
      | x # xs' \<Rightarrow> Popped (Some x) # fifo_spec xs' ops)"

text \<open>The event \<open>ms_note_on\<close> of \<open>sampler_rt.c\<close> builds for a (note, velocity) pair.\<close>

definition note_on_event :: "nat \<Rightarrow> nat \<times> nat \<Rightarrow> rt_event" where
  "note_on_event ip nv =
     \<lparr>ev_note = fst nv, ev_velocity = snd nv, event_type = 0, ev_instrument = Some ip\<rparr>"

text \<open>A control thread that calls the real-time \<open>ms_note_on\<close> for each pair of a list.\<close>

fun note_on_all ::
  "heap \<Rightarrow> nat option \<Rightarrow> (nat \<times> nat) list \<Rightarrow> (ms_error list \<times> heap) option" where
  "note_on_all h ip [] = Some ([], h)"
| "note_on_all h ip ((n, v) # nvs) =
     do {
       (r, h', _) \<leftarrow> ms_note_on_rt h ip n v None;
       (rs, h'') \<leftarrow> note_on_all h' ip nvs;
       Some (r # rs, h'')
     }"

text \<open>Concrete inputs: the configuration of the end-to-end test.\<close>

definition example_config :: ms_audio_config where
  "example_config = \<lparr>sample_rate = 48000, channels = 2, max_polyphony = 8, buffer_size = 512\<rparr>"

definition example_pairs :: "(nat \<times> nat) list" where
  "example_pairs = map (\<lambda>i. (i mod 128, 100)) [0 ..< 255]"

text \<open>An instrument with three mono samples in two velocity layers, and a store for \<open>sampler.c\<close>.\<close>

definition example_meta :: "nat \<Rightarrow> nat \<Rightarrow> nat \<Rightarrow> ms_sample_metadata" where
  "example_meta rn lo hi =
     \<lparr>root_note = rn, velocity_low = lo, velocity_high = hi, loop_enabled = False,
      loop_start = 0, loop_end = 0\<rparr>"

definition example_sample_a :: ms_sample_data where
  "example_sample_a =
     \<lparr>data = [1/2, 1, 1/4, -1], num_frames = 4, s_channels = 1, meta = example_meta 60 32 63\<rparr>"

definition example_sample_b :: ms_sample_data where
  "example_sample_b =
     \<lparr>data = [1/2, 1, 1/4, -1], num_frames = 4, s_channels = 1, meta = example_meta 72 64 127\<rparr>"

definition example_sample_c :: ms_sample_data where
  "example_sample_c =
     \<lparr>data = [1/2, 1, 1/4, -1], num_frames = 4, s_channels = 1, meta = example_meta 48 64 127\<rparr>"

definition example_instrument :: ms_instrument where
  "example_instrument =
     (ms_instrument_create 1)\<lparr>samples := [example_sample_a, example_sample_b, example_sample_c]\<rparr>"

definition example_heap :: heap where
  "example_heap =
     \<lparr>instruments = [7 \<mapsto> example_instrument],
      samplers = [1 \<mapsto> ms_sampler_create example_config]\<rparr>"

definition example_instrument_rt :: ms_instrument where
  "example_instrument_rt =
     (ms_instrument_create_rt 1)\<lparr>samples := [example_sample_a, example_sample_b, example_sample_c]\<rparr>"

definition example_heap_rt :: heap where
  "example_heap_rt =
     \<lparr>instruments = [7 \<mapsto> example_instrument_rt],
      samplers = [1 \<mapsto> ms_sampler_create example_config]\<rparr>"

text \<open>
  The invariant behind the sustain level: the parameters are those given at
  initialisation and, in the Sustain stage, the level is the configured sustain level.
\<close>

definition sustain_inv :: "ms_envelope \<Rightarrow> envelope_generator \<Rightarrow> bool" where
  "sustain_inv p env \<longleftrightarrow>
     params env = p \<and> (stage env = ENV_SUSTAIN \<longrightarrow> current_level env = sustain_level p)"

text \<open>
  The length of a stage as \<open>envelope_trigger\<close> and \<open>core/envelope.c\<close> compute it: the
  \<open>float\<close> product of the time and the sample rate cast to \<open>uint32_t\<close>, and 1 when the
  cast gives 0.
\<close>

definition stage_length :: "real \<Rightarrow> real \<Rightarrow> nat" where
  "stage_length t sr = (let n = to_uint32 (float_mul t sr) in if n = 0 then 1 else n)"

text \<open>A short envelope: at 4 frames per second, two frames of attack and two of decay.\<close>

definition example_envelope :: ms_envelope where
  "example_envelope =
     \<lparr>attack_time = 1/2, decay_time = 1/2, sustain_level = 1/2, release_time = 1\<rparr>"

text \<open>
  A looping variant of the first sample and a voice of \<open>voice.c\<close> triggered on the
  first sample at its root note.
\<close>

definition example_sample_loop :: ms_sample_data where
  "example_sample_loop =
     example_sample_a\<lparr>meta := (example_meta 60 32 63)
                               \<lparr>loop_enabled := True, loop_start := 1, loop_end := 3\<rparr>\<rparr>"

definition example_voice :: voice where
  "example_voice =
     voice_trigger (voice_init 1 48000) (Some example_sample_a) 60 100 (Some example_envelope)"

text \<open>
  A voice of each build playing the looping sample at its root note with velocity 127:
  the envelope is held in the Sustain stage at level 1/2 and the position has reached
  the end of the sample (frame 4).
\<close>

definition example_held_envelope :: envelope_generator where
  "example_held_envelope =
     (envelope_trigger (envelope_init_rt 44100 example_envelope))
       \<lparr>stage := ENV_SUSTAIN, current_level := 1/2\<rparr>"

definition example_voice_loop :: voice where
  "example_voice_loop =
     (voice_trigger (voice_init 1 48000) (Some example_sample_loop) 60 127
        (Some example_envelope))
       \<lparr>v_envelope := example_held_envelope, playback_position := 4\<rparr>"

definition example_voice_loop_rt :: voice where
  "example_voice_loop_rt =
     (voice_trigger_rt (voice_init 1 48000) (Some example_sample_loop) 60 127
        (Some example_envelope))
       \<lparr>v_envelope := example_held_envelope, playback_position := 4\<rparr>"

text \<open>
  The entries of \<open>MIDI_FREQ_TABLE\<close> in thousandths, and the test that an entry \<open>t\<close>
  (in thousandths) lies within 0.0005 of \<open>440 * 2^((n - 69) / 12)\<close>, stated on twelfth
  powers of natural numbers with \<open>p = 2^n\<close>.
\<close>

definition MIDI_FREQ_MILLI :: "nat list" where
  "MIDI_FREQ_MILLI =
     [8176, 8662, 9177, 9723, 10301, 10913, 11562, 12250,
      12978, 13750, 14568, 15434, 16352, 17324, 18354, 19445,
      20602, 21827, 23125, 24500, 25957, 27500, 29135, 30868,
      32703, 34648, 36708, 38891, 41203, 43654, 46249, 48999,
      51913, 55000, 58270, 61735, 65406, 69296, 73416, 77782,
      82407, 87307, 92499, 97999, 103826, 110000, 116541, 123471,
      130813, 138591, 146832, 155563, 164814, 174614, 184997, 195998,
      207652, 220000, 233082, 246942, 261626, 277183, 293665, 311127,
      329628, 349228, 369994, 391995, 415305, 440000, 466164, 493883,
      523251, 554365, 587330, 622254, 659255, 698456, 739989, 783991,
      830609, 880000, 932328, 987767, 1046502, 1108731, 1174659, 1244508,
      1318510, 1396913, 1479978, 1567982, 1661219, 1760000, 1864655, 1975533,
      2093005, 2217461, 2349318, 2489016, 2637020, 2793826, 2959955, 3135963,
      3322438, 3520000, 3729310, 3951066, 4186009, 4434922, 4698636, 4978032,
      5274041, 5587652, 5919911, 6271927, 6644875, 7040000, 7458620, 7902133,
      8372018, 8869844, 9397273, 9956063, 10548082, 11175303, 11839822, 12543854]"

definition table_close :: "nat \<Rightarrow> nat \<Rightarrow> bool" where
  "table_close p t \<longleftrightarrow>
     (2 * t - 1) ^ 12 * 2 ^ 69 \<le> 880000 ^ 12 * p
     \<and> 880000 ^ 12 * p \<le> (2 * t + 1) ^ 12 * 2 ^ 69"

text \<open>The test for a run of entries, the first for the note whose power of two is \<open>p\<close>.\<close>

fun table_check :: "nat \<Rightarrow> nat list \<Rightarrow> bool" where
  "table_check p [] = True"
| "table_check p (t # ts) = (table_close p t \<and> 8176 \<le> t \<and> table_check (2 * p) ts)"

text \<open>
  Polyphony: the number of active slots of the voice array, a control thread that calls
  \<open>ms_note_on\<close> of \<open>sampler.c\<close> for each (note, velocity) pair of a list, and the state of
  a pool filled in index order: slot \<open>j\<close> plays the \<open>j\<close>-th note and the slots after the
  last note are inactive.
\<close>

definition active_count :: "ms_sampler \<Rightarrow> nat" where
  "active_count s = length (filter (\<lambda>j. active (voices s j)) [0 ..< MS_MAX_VOICES])"

fun ms_note_on_all ::
  "heap \<Rightarrow> nat option \<Rightarrow> (nat \<times> nat) list \<Rightarrow> (ms_error list \<times> heap) option" where
  "ms_note_on_all h ip [] = Some ([], h)"
| "ms_note_on_all h ip ((n, v) # nvs) =
     do {
       (r, h', _) \<leftarrow> ms_note_on h ip n v None;
       (rs, h'') \<leftarrow> ms_note_on_all h' ip nvs;
       Some (r # rs, h'')
     }"

definition filled :: "ms_sampler \<Rightarrow> nat list \<Rightarrow> bool" where
  "filled s notes \<longleftrightarrow>
     (\<forall>j < length notes. active (voices s j) \<and> v_note (voices s j) = notes ! j)
     \<and> (\<forall>j. length notes \<le> j \<and> j < MS_MAX_VOICES \<longrightarrow> \<not> active (voices s j))"

text \<open>
  Eight note-ons on consecutive notes, and a real-time store whose sampler (polyphony 8)
  has them and a ninth queued.
\<close>

definition example_notes :: "(nat \<times> nat) list" where
  "example_notes =
     [(60, 100), (61, 100), (62, 100), (63, 100), (64, 100), (65, 100), (66, 100), (67, 100)]"

definition example_sampler_queued :: ms_sampler where
  "example_sampler_queued =
     (ms_sampler_create example_config)
       \<lparr>event_queue :=
          snd (push_all (event_queue (ms_sampler_create example_config))
                 (map (note_on_event 7) (example_notes @ [(68, 100)])))\<rparr>"

definition example_heap_queued :: heap where
  "example_heap_queued =
     \<lparr>instruments = [7 \<mapsto> example_instrument_rt], samplers = [1 \<mapsto> example_sampler_queued]\<rparr>"

text \<open>
  Well-formed inputs of the render call. A sample whose buffer holds its frames (one
  float per frame for a mono sample, the left channel of interleaved frames otherwise)
  and whose loop, when it is in force, starts inside the sample; a voice that reads such
  a sample forwards from a position that is not negative; a pool whose slots have a
  pitch-bend multiplier that is not negative and whose active slots are such voices; and
  a queued event whose instrument, when it is a note-on, is in the store and owns only
  such samples.
\<close>

definition sample_ok :: "ms_sample_data \<Rightarrow> bool" where
  "sample_ok smp \<longleftrightarrow>
     (if s_channels smp = 1 then num_frames smp \<le> length (data smp)
      else 2 * num_frames smp \<le> length (data smp) + 1)
     \<and> (if loop_enabled (meta smp) \<and> loop_start (meta smp) < loop_end (meta smp)
        then loop_start (meta smp) < num_frames smp else True)
     \<and> num_frames smp < 2 ^ 64"

definition voice_ok :: "voice \<Rightarrow> bool" where
  "voice_ok v \<longleftrightarrow>
     (case v_sample v of
        None \<Rightarrow> True
      | Some smp \<Rightarrow> sample_ok smp \<and> 0 \<le> playback_position v \<and> 0 \<le> playback_speed v)"

definition pool_ok :: "ms_sampler \<Rightarrow> bool" where
  "pool_ok s \<longleftrightarrow>
     list_all (\<lambda>j. 0 \<le> pitch_bend_multiplier (voices s j)
                   \<and> (if active (voices s j) then voice_ok (voices s j) else True))
       [0 ..< pool_size s]"

definition event_ok :: "heap \<Rightarrow> rt_event \<Rightarrow> bool" where
  "event_ok h e \<longleftrightarrow>
     (if event_type e = 0
      then (case ev_instrument e of
              None \<Rightarrow> True
            | Some ip \<Rightarrow>
                (case instruments h ip of
                   None \<Rightarrow> False
                 | Some inst \<Rightarrow> list_all sample_ok (samples inst)))
      else True)"





section \<open>Properties of the event queue\<close>

lemma mod_lt2:
  fixes x N :: nat
  assumes "x < 2 * N"
  shows "x mod N = (if x < N then x else x - N)"
proof (cases "x < N")
  case True then show ?thesis by simp
next
  case False
  then have "x mod N = (x - N) mod N" by (simp add: le_mod_geq)
  moreover have "x - N < N" using assms False by linarith
  ultimately show ?thesis using False by simp
qed

lemma ring_len:
  fixes r w N :: nat
  assumes "r < N" "w < N"
  shows "(w + N - r) mod N = (if r \<le> w then w - r else w + N - r)"
proof -
  have "w + N - r < 2 * N" using assms by linarith
  then show ?thesis using assms by (auto simp: mod_lt2)
qed

lemma ring_succ:
  fixes w N :: nat
  assumes "w < N"
  shows "Suc w mod N = (if Suc w = N then 0 else Suc w)"
  using assms by (simp add: mod_Suc)

lemma ring_index:
  fixes r w N i :: nat
  assumes "r < N" "i < N"
  shows "(r + i) mod N = (if r + i < N then r + i else r + i - N)"
proof -
  have "r + i < 2 * N" using assms by linarith
  then show ?thesis by (rule mod_lt2)
qed

lemma ring_last:
  fixes r w N :: nat
  assumes "r < N" "w < N"
  shows "(r + (w + N - r) mod N) mod N = w"
proof -
  have "(w + N - r) mod N < N" using assms by simp
  then show ?thesis using assms by (simp add: ring_index) (auto simp: ring_len)
qed

lemma ring_before:
  fixes r w N i :: nat
  assumes "r < N" "w < N" "i < (w + N - r) mod N"
  shows "(r + i) mod N \<noteq> w"
proof -
  have "(w + N - r) mod N < N" using assms by simp
  with assms have "i < N" by linarith
  then show ?thesis using assms by (simp add: ring_index) (auto simp: ring_len split: if_splits)
qed

lemma ring_len_push:
  fixes r w N :: nat
  assumes "r < N" "w < N" "(w + 1) mod N \<noteq> r"
  shows "((w + 1) mod N + N - r) mod N = Suc ((w + N - r) mod N)"
proof -
  have "(w + 1) mod N < N" using assms by simp
  then show ?thesis using assms by (auto simp: ring_len ring_succ split: if_splits)
qed

lemma ring_len_pop:
  fixes r w N :: nat
  assumes "r < N" "w < N" "r \<noteq> w"
  shows "Suc ((w + N - (r + 1) mod N) mod N) = (w + N - r) mod N"
proof -
  have "(r + 1) mod N < N" using assms by simp
  then show ?thesis using assms by (auto simp: ring_len ring_succ split: if_splits)
qed

lemma ring_full:
  fixes r w N :: nat
  assumes "r < N" "w < N"
  shows "(w + 1) mod N = r \<longleftrightarrow> (w + N - r) mod N = N - 1"
  using assms by (auto simp: ring_len ring_succ split: if_splits)


lemma queue_contents_length:
  "length (queue_contents q) =
     (write_idx q + RT_EVENT_QUEUE_SIZE - read_idx q) mod RT_EVENT_QUEUE_SIZE"
  by (simp add: queue_contents_def)

lemma queue_contents_empty: "read_idx q = write_idx q \<Longrightarrow> queue_contents q = []"
  by (simp add: queue_contents_def)

lemma queue_contents_push:
  assumes "queue_wf q" "(write_idx q + 1) mod RT_EVENT_QUEUE_SIZE \<noteq> read_idx q"
  shows "queue_contents
           (q\<lparr>events := (events q)(write_idx q := e),
              write_idx := (write_idx q + 1) mod RT_EVENT_QUEUE_SIZE\<rparr>)
         = queue_contents q @ [e]"
proof -
  let ?N = RT_EVENT_QUEUE_SIZE
  let ?n = "(write_idx q + ?N - read_idx q) mod ?N"
  have r: "read_idx q < ?N" and w: "write_idx q < ?N"
    using assms(1) by (simp_all add: queue_wf_def)
  have len: "((write_idx q + 1) mod ?N + ?N - read_idx q) mod ?N = Suc ?n"
    using r w assms(2) by (rule ring_len_push)
  have last: "(read_idx q + ?n) mod ?N = write_idx q"
    using r w by (rule ring_last)
  have before: "\<And>i. i < ?n \<Longrightarrow> (read_idx q + i) mod ?N \<noteq> write_idx q"
    using r w by (rule ring_before)
  show ?thesis
    unfolding queue_contents_def
    by (simp add: len last before del: One_nat_def add_Suc_right)
qed

lemma queue_contents_pop:
  assumes "queue_wf q" "read_idx q \<noteq> write_idx q"
  shows "queue_contents q =
           events q (read_idx q)
           # queue_contents (q\<lparr>read_idx := (read_idx q + 1) mod RT_EVENT_QUEUE_SIZE\<rparr>)"
proof -
  let ?N = RT_EVENT_QUEUE_SIZE
  let ?n' = "(write_idx q + ?N - (read_idx q + 1) mod ?N) mod ?N"
  have r: "read_idx q < ?N" and w: "write_idx q < ?N"
    using assms(1) by (simp_all add: queue_wf_def)
  have len: "(write_idx q + ?N - read_idx q) mod ?N = Suc ?n'"
    using ring_len_pop [OF r w assms(2)] by simp
  have idx: "\<And>i. ((read_idx q + 1) mod ?N + i) mod ?N = (read_idx q + Suc i) mod ?N"
    by (simp add: mod_add_left_eq)
  have "[0 ..< Suc ?n'] = 0 # map Suc [0 ..< ?n']"
    by (simp add: upt_conv_Cons map_Suc_upt del: upt_Suc)
  then show ?thesis
    unfolding queue_contents_def len
    using r by (simp add: idx comp_def del: upt_Suc One_nat_def add_Suc_right)
qed


lemma rt_queue_push_full:
  assumes "queue_wf q" "length (queue_contents q) = RT_EVENT_QUEUE_SIZE - 1"
  shows "rt_queue_push q e = (False, q)"
proof -
  have "(write_idx q + 1) mod RT_EVENT_QUEUE_SIZE = read_idx q"
    using assms ring_full [of "read_idx q" RT_EVENT_QUEUE_SIZE "write_idx q"]
    by (simp add: queue_wf_def queue_contents_length)
  then show ?thesis by (simp add: rt_queue_push_def Let_def)
qed

lemma rt_queue_push_ok:
  assumes "queue_wf q" "length (queue_contents q) \<noteq> RT_EVENT_QUEUE_SIZE - 1"
  shows "\<exists>q'. rt_queue_push q e = (True, q') \<and> queue_contents q' = queue_contents q @ [e]
              \<and> queue_wf q'"
proof -
  have ne: "(write_idx q + 1) mod RT_EVENT_QUEUE_SIZE \<noteq> read_idx q"
    using assms ring_full [of "read_idx q" RT_EVENT_QUEUE_SIZE "write_idx q"]
    by (simp add: queue_wf_def queue_contents_length)
  have "0 < RT_EVENT_QUEUE_SIZE" by (simp add: RT_EVENT_QUEUE_SIZE_def)
  then have "(write_idx q + 1) mod RT_EVENT_QUEUE_SIZE < RT_EVENT_QUEUE_SIZE" by simp
  then have "queue_wf (q\<lparr>events := (events q)(write_idx q := e),
                         write_idx := (write_idx q + 1) mod RT_EVENT_QUEUE_SIZE\<rparr>)"
    using assms(1) by (simp add: queue_wf_def)
  with ne queue_contents_push [OF assms(1) ne, of e] show ?thesis
    by (simp add: rt_queue_push_def Let_def)
qed

lemma rt_queue_pop_empty:
  assumes "queue_wf q" "queue_contents q = []"
  shows "rt_queue_pop q = (None, q)"
proof -
  have "read_idx q = write_idx q"
  proof (rule ccontr)
    assume "read_idx q \<noteq> write_idx q"
    from queue_contents_pop [OF assms(1) this] assms(2) show False by simp
  qed
  then show ?thesis by (simp add: rt_queue_pop_def Let_def)
qed

lemma rt_queue_pop_Cons:
  assumes "queue_wf q" "queue_contents q = x # xs"
  shows "\<exists>q'. rt_queue_pop q = (Some x, q') \<and> queue_contents q' = xs \<and> queue_wf q'"
proof -
  have ne: "read_idx q \<noteq> write_idx q"
    using assms(2) queue_contents_empty [of q] by auto
  have "0 < RT_EVENT_QUEUE_SIZE" by (simp add: RT_EVENT_QUEUE_SIZE_def)
  then have "(read_idx q + 1) mod RT_EVENT_QUEUE_SIZE < RT_EVENT_QUEUE_SIZE" by simp
  then have "queue_wf (q\<lparr>read_idx := (read_idx q + 1) mod RT_EVENT_QUEUE_SIZE\<rparr>)"
    using assms(1) by (simp add: queue_wf_def)
  with ne queue_contents_pop [OF assms(1) ne] assms(2) show ?thesis
    by (simp add: rt_queue_pop_def Let_def)
qed

lemma run_queue_fifo:
  "queue_wf q \<Longrightarrow> run_queue q ops = fifo_spec (queue_contents q) ops"
proof (induction ops arbitrary: q)
  case Nil
  then show ?case by simp
next
  case (Cons op ops)
  show ?case
  proof (cases op)
    case (Push e)
    show ?thesis
    proof (cases "length (queue_contents q) = RT_EVENT_QUEUE_SIZE - 1")
      case True
      with Cons Push rt_queue_push_full [OF Cons.prems True, of e] show ?thesis by simp
    next
      case False
      from rt_queue_push_ok [OF Cons.prems False, of e] obtain q' where
        "rt_queue_push q e = (True, q')" "queue_contents q' = queue_contents q @ [e]" "queue_wf q'"
        by blast
      with Cons.IH [of q'] Push False show ?thesis by simp
    qed
  next
    case Pop
    show ?thesis
    proof (cases "queue_contents q")
      case Nil
      with Cons Pop rt_queue_pop_empty [OF Cons.prems Nil] show ?thesis by simp
    next
      case (Cons x xs)
      from rt_queue_pop_Cons [OF Cons.prems this] obtain q' where
        "rt_queue_pop q = (Some x, q')" "queue_contents q' = xs" "queue_wf q'"
        by blast
      with Cons.IH [of q'] Pop Cons show ?thesis by simp
    qed
  qed
qed


lemma push_all_fits:
  "queue_wf q \<Longrightarrow> length (queue_contents q) + length es \<le> RT_EVENT_QUEUE_SIZE - 1 \<Longrightarrow>
     fst (push_all q es) = replicate (length es) True
     \<and> queue_contents (snd (push_all q es)) = queue_contents q @ es
     \<and> queue_wf (snd (push_all q es))"
proof (induction es arbitrary: q)
  case Nil
  then show ?case by simp
next
  case (Cons e es)
  then have "length (queue_contents q) \<noteq> RT_EVENT_QUEUE_SIZE - 1" by simp
  from rt_queue_push_ok [OF Cons.prems(1) this, of e] obtain q' where
    q': "rt_queue_push q e = (True, q')" "queue_contents q' = queue_contents q @ [e]"
        "queue_wf q'"
    by blast
  with Cons.prems have "length (queue_contents q') + length es \<le> RT_EVENT_QUEUE_SIZE - 1"
    by simp
  from Cons.IH [OF q'(3) this] q' show ?case
    by (simp add: split_beta)
qed

lemma pop_n_contents:
  "queue_wf q \<Longrightarrow> n \<le> length (queue_contents q) \<Longrightarrow>
     fst (pop_n n q) = map Some (take n (queue_contents q))
     \<and> queue_contents (snd (pop_n n q)) = drop n (queue_contents q)
     \<and> queue_wf (snd (pop_n n q))"
proof (induction n arbitrary: q)
  case 0
  then show ?case by simp
next
  case (Suc n)
  then obtain x xs where xs: "queue_contents q = x # xs"
    by (cases "queue_contents q") auto
  from rt_queue_pop_Cons [OF Suc.prems(1) xs] obtain q' where
    q': "rt_queue_pop q = (Some x, q')" "queue_contents q' = xs" "queue_wf q'"
    by blast
  with Suc.prems xs have "n \<le> length (queue_contents q')" by simp
  from Suc.IH [OF q'(3) this] q' xs show ?case
    by (simp add: split_beta)
qed

lemma ms_note_on_rt_full:
  assumes "instruments h ip = Some inst" "sampler inst = Some sp" "samplers h sp = Some s"
    and "queue_wf (event_queue s)"
    and "length (queue_contents (event_queue s)) = RT_EVENT_QUEUE_SIZE - 1"
  shows "ms_note_on_rt h (Some ip) n v vid = Some (MS_ERROR_BUFFER_OVERFLOW, h, vid)"
  using assms(1-3) rt_queue_push_full [OF assms(4,5)]
  by (simp add: ms_note_on_rt_def)

lemma ms_note_on_rt_ok:
  assumes "instruments h ip = Some inst" "sampler inst = Some sp" "samplers h sp = Some s"
    and "queue_wf (event_queue s)"
    and "length (queue_contents (event_queue s)) \<noteq> RT_EVENT_QUEUE_SIZE - 1"
  shows "\<exists>q'. ms_note_on_rt h (Some ip) n v vid =
                 Some (MS_SUCCESS, h\<lparr>samplers := (samplers h)(sp \<mapsto> s\<lparr>event_queue := q'\<rparr>)\<rparr>, vid)
              \<and> queue_contents q' = queue_contents (event_queue s) @ [note_on_event ip (n, v)]
              \<and> queue_wf q'"
proof -
  from rt_queue_push_ok [OF assms(4,5), of "note_on_event ip (n, v)"] obtain q' where
    q': "rt_queue_push (event_queue s) (note_on_event ip (n, v)) = (True, q')"
        "queue_contents q' = queue_contents (event_queue s) @ [note_on_event ip (n, v)]"
        "queue_wf q'"
    by blast
  then have "ms_note_on_rt h (Some ip) n v vid =
                 Some (MS_SUCCESS, h\<lparr>samplers := (samplers h)(sp \<mapsto> s\<lparr>event_queue := q'\<rparr>)\<rparr>, vid)"
    using assms(1-3) by (simp add: ms_note_on_rt_def note_on_event_def)
  with q'(2,3) show ?thesis by blast
qed

lemma note_on_all_fits:
  "instruments h ip = Some inst \<Longrightarrow> sampler inst = Some sp \<Longrightarrow> samplers h sp = Some s \<Longrightarrow>
   queue_wf (event_queue s) \<Longrightarrow>
   length (queue_contents (event_queue s)) + length nvs \<le> RT_EVENT_QUEUE_SIZE - 1 \<Longrightarrow>
   \<exists>h' s'. note_on_all h (Some ip) nvs = Some (replicate (length nvs) MS_SUCCESS, h')
          \<and> instruments h' = instruments h \<and> samplers h' sp = Some s'
          \<and> queue_wf (event_queue s')
          \<and> queue_contents (event_queue s') =
              queue_contents (event_queue s) @ map (note_on_event ip) nvs"
proof (induction nvs arbitrary: h s)
  case Nil
  then show ?case by simp
next
  case (Cons nv nvs)
  obtain n v where nv: "nv = (n, v)" by (cases nv)
  from Cons.prems have "length (queue_contents (event_queue s)) \<noteq> RT_EVENT_QUEUE_SIZE - 1"
    by simp
  from ms_note_on_rt_ok [OF Cons.prems(1-4) this, of n v None] obtain q' where
    q': "ms_note_on_rt h (Some ip) n v None =
           Some (MS_SUCCESS, h\<lparr>samplers := (samplers h)(sp \<mapsto> s\<lparr>event_queue := q'\<rparr>)\<rparr>, None)"
        "queue_contents q' = queue_contents (event_queue s) @ [note_on_event ip (n, v)]"
        "queue_wf q'"
    by blast
  let ?h = "h\<lparr>samplers := (samplers h)(sp \<mapsto> s\<lparr>event_queue := q'\<rparr>)\<rparr>"
  let ?s = "s\<lparr>event_queue := q'\<rparr>"
  have 1: "instruments ?h ip = Some inst" using Cons.prems(1) by simp
  have 3: "samplers ?h sp = Some ?s" by simp
  have 4: "queue_wf (event_queue ?s)" using q'(3) by simp
  have 5: "length (queue_contents (event_queue ?s)) + length nvs \<le> RT_EVENT_QUEUE_SIZE - 1"
    using q'(2) Cons.prems(5) by simp
  from Cons.IH [OF 1 Cons.prems(2) 3 4 5] obtain h' s' where
    "note_on_all ?h (Some ip) nvs = Some (replicate (length nvs) MS_SUCCESS, h')"
    "instruments h' = instruments ?h" "samplers h' sp = Some s'"
    "queue_wf (event_queue s')"
    "queue_contents (event_queue s') = queue_contents (event_queue ?s) @ map (note_on_event ip) nvs"
    by blast
  with q' nv show ?case by simp
qed

text \<open>
  Claim C1. Let \<open>q\<close> be an empty queue (read index equal to write index, both inside the
  array of \<open>RT_EVENT_QUEUE_SIZE = 256\<close> slots). Pushing 255 events succeeds every time and
  one more push returns \<open>false\<close> and leaves the whole queue as it was; at the API,
  255 calls of the real-time \<open>ms_note_on\<close> return \<open>MS_SUCCESS\<close> and the next one returns
  \<open>MS_ERROR_BUFFER_OVERFLOW\<close> with the store unchanged. Popping the empty queue returns
  no event and changes nothing. The 255 events are popped in the order they were pushed,
  and under any interleaving of pushes and pops the queue answers as a first-in first-out
  list of capacity 255 does.
\<close>

theorem event_queue_capacity_fifo:
  assumes wf: "queue_wf q" and empty: "read_idx q = write_idx q"
    and len: "length es = RT_EVENT_QUEUE_SIZE - 1"
    and heap: "instruments h ip = Some inst" "sampler inst = Some sp"
              "samplers h sp = Some s" "event_queue s = q"
    and nvs: "length nvs = RT_EVENT_QUEUE_SIZE - 1"
  shows "RT_EVENT_QUEUE_SIZE = 256
       \<and> fst (push_all q es) = replicate (RT_EVENT_QUEUE_SIZE - 1) True
       \<and> rt_queue_push (snd (push_all q es)) e = (False, snd (push_all q es))
       \<and> (\<exists>h'. note_on_all h (Some ip) nvs
                   = Some (replicate (RT_EVENT_QUEUE_SIZE - 1) MS_SUCCESS, h')
               \<and> ms_note_on_rt h' (Some ip) n v vid
                   = Some (MS_ERROR_BUFFER_OVERFLOW, h', vid))
       \<and> rt_queue_pop q = (None, q)
       \<and> fst (pop_n (length es) (snd (push_all q es))) = map Some es
       \<and> run_queue q ops = fifo_spec [] ops"
proof -
  have nil: "queue_contents q = []" using empty by (rule queue_contents_empty)
  have fits: "length (queue_contents q) + length es \<le> RT_EVENT_QUEUE_SIZE - 1"
    using nil len by simp
  from push_all_fits [OF wf fits] nil len
  have p1: "fst (push_all q es) = replicate (RT_EVENT_QUEUE_SIZE - 1) True"
    and p2: "queue_contents (snd (push_all q es)) = es"
    and p3: "queue_wf (snd (push_all q es))"
    by simp_all
  have full: "length (queue_contents (snd (push_all q es))) = RT_EVENT_QUEUE_SIZE - 1"
    using p2 len by simp
  have c2: "rt_queue_push (snd (push_all q es)) e = (False, snd (push_all q es))"
    using p3 full by (rule rt_queue_push_full)
  have c3: "\<exists>h'. note_on_all h (Some ip) nvs
                   = Some (replicate (RT_EVENT_QUEUE_SIZE - 1) MS_SUCCESS, h')
               \<and> ms_note_on_rt h' (Some ip) n v vid
                   = Some (MS_ERROR_BUFFER_OVERFLOW, h', vid)"
  proof -
    have wfs: "queue_wf (event_queue s)" using wf heap(4) by simp
    have fits': "length (queue_contents (event_queue s)) + length nvs
                   \<le> RT_EVENT_QUEUE_SIZE - 1"
      using nil heap(4) nvs by simp
    from note_on_all_fits [OF heap(1-3) wfs fits'] obtain h' s' where
      h': "note_on_all h (Some ip) nvs = Some (replicate (length nvs) MS_SUCCESS, h')"
          "instruments h' = instruments h" "samplers h' sp = Some s'"
          "queue_wf (event_queue s')"
          "queue_contents (event_queue s')
             = queue_contents (event_queue s) @ map (note_on_event ip) nvs"
      by blast
    have full': "length (queue_contents (event_queue s')) = RT_EVENT_QUEUE_SIZE - 1"
      using h'(5) nil heap(4) nvs by simp
    have "instruments h' ip = Some inst" using h'(2) heap(1) by simp
    then have "ms_note_on_rt h' (Some ip) n v vid = Some (MS_ERROR_BUFFER_OVERFLOW, h', vid)"
      using heap(2) h'(3,4) full' by (rule ms_note_on_rt_full)
    with h'(1) nvs show ?thesis by auto
  qed
  have c4: "rt_queue_pop q = (None, q)"
    using wf nil by (rule rt_queue_pop_empty)
  have "length es \<le> length (queue_contents (snd (push_all q es)))" using p2 by simp
  from pop_n_contents [OF p3 this] p2
  have c5: "fst (pop_n (length es) (snd (push_all q es))) = map Some es" by simp
  have c6: "run_queue q ops = fifo_spec [] ops"
    using run_queue_fifo [OF wf, of ops] nil by simp
  have c0: "RT_EVENT_QUEUE_SIZE = 256" by (simp add: RT_EVENT_QUEUE_SIZE_def)
  from c0 p1 c2 c3 c4 c5 c6 show ?thesis by blast
qed

theorem event_queue_capacity_fifo_witness:
  "fst (push_all (event_queue (ms_sampler_create example_config))
          (map (note_on_event 7) example_pairs)) = replicate 255 True
   \<and> rt_queue_push
        (snd (push_all (event_queue (ms_sampler_create example_config))
                (map (note_on_event 7) example_pairs))) zero_event
      = (False, snd (push_all (event_queue (ms_sampler_create example_config))
                       (map (note_on_event 7) example_pairs)))
   \<and> (\<exists>h'. note_on_all example_heap_rt (Some 7) example_pairs
               = Some (replicate 255 MS_SUCCESS, h')
           \<and> ms_note_on_rt h' (Some 7) 60 100 None
               = Some (MS_ERROR_BUFFER_OVERFLOW, h', None))
   \<and> fst (pop_n 255
            (snd (push_all (event_queue (ms_sampler_create example_config))
                    (map (note_on_event 7) example_pairs))))
      = map Some (map (note_on_event 7) example_pairs)"
proof -
  let ?q = "event_queue (ms_sampler_create example_config)"
  let ?es = "map (note_on_event 7) example_pairs"
  have a1: "queue_wf ?q"
    by (simp add: queue_wf_def ms_sampler_create_def RT_EVENT_QUEUE_SIZE_def)
  have a2: "read_idx ?q = write_idx ?q" by (simp add: ms_sampler_create_def)
  have a3: "length ?es = RT_EVENT_QUEUE_SIZE - 1"
    by (simp add: example_pairs_def RT_EVENT_QUEUE_SIZE_def)
  have a4: "instruments example_heap_rt 7 = Some example_instrument_rt"
    by (simp add: example_heap_rt_def)
  have a5: "sampler example_instrument_rt = Some 1"
    by (simp add: example_instrument_rt_def ms_instrument_create_rt_def)
  have a6: "samplers example_heap_rt 1 = Some (ms_sampler_create example_config)"
    by (simp add: example_heap_rt_def)
  have a7: "length example_pairs = RT_EVENT_QUEUE_SIZE - 1"
    by (simp add: example_pairs_def RT_EVENT_QUEUE_SIZE_def)
  have n: "RT_EVENT_QUEUE_SIZE - 1 = 255" "length ?es = 255"
    by (simp_all add: example_pairs_def RT_EVENT_QUEUE_SIZE_def)
  from event_queue_capacity_fifo [OF a1 a2 a3 a4 a5 a6 refl a7,
         of zero_event 60 100 None "[]"]
  show ?thesis unfolding n by blast
qed

section \<open>Properties of sample resolution\<close>

lemma find_velocity_loop_inv:
  "find_velocity_loop note velocity ss (b, d) = (b', d') \<Longrightarrow>
     d' \<le> d
     \<and> (\<forall>t \<in> set ss. velocity_low (meta t) \<le> velocity \<and> velocity \<le> velocity_high (meta t)
            \<longrightarrow> d' \<le> note_distance note t)
     \<and> ((b', d') = (b, d)
        \<or> (\<exists>s \<in> set ss. velocity_low (meta s) \<le> velocity \<and> velocity \<le> velocity_high (meta s)
              \<and> b' = Some s \<and> d' = note_distance note s))"
proof (induction ss arbitrary: b d)
  case Nil
  then show ?case by simp
next
  case (Cons s ss)
  show ?case
  proof (cases "velocity_low (meta s) \<le> velocity \<and> velocity \<le> velocity_high (meta s)
                \<and> note_distance note s < d")
    case True
    with Cons.prems have "find_velocity_loop note velocity ss (Some s, note_distance note s) = (b', d')"
      by simp
    from Cons.IH [OF this] True show ?thesis by auto
  next
    case False
    with Cons.prems have "find_velocity_loop note velocity ss (b, d) = (b', d')"
      by (auto split: if_splits)
    from Cons.IH [OF this] False show ?thesis by auto
  qed
qed

lemma find_closest_loop_inv:
  "find_closest_loop note ss (b, d) = (b', d') \<Longrightarrow>
     d' \<le> d
     \<and> (\<forall>t \<in> set ss. d' \<le> note_distance note t)
     \<and> ((b', d') = (b, d) \<or> (\<exists>s \<in> set ss. b' = Some s \<and> d' = note_distance note s))"
proof (induction ss arbitrary: b d)
  case Nil
  then show ?case by simp
next
  case (Cons s ss)
  show ?case
  proof (cases "note_distance note s < d")
    case True
    with Cons.prems have "find_closest_loop note ss (Some s, note_distance note s) = (b', d')"
      by simp
    from Cons.IH [OF this] True show ?thesis by auto
  next
    case False
    with Cons.prems have "find_closest_loop note ss (b, d) = (b', d')"
      by simp
    from Cons.IH [OF this] False show ?thesis by auto
  qed
qed

lemma note_distance_bound:
  "note \<le> 127 \<Longrightarrow> root_note (meta s) \<le> 127 \<Longrightarrow> note_distance note s < 128"
  by (simp add: note_distance_def)

text \<open>
  Claim C2. For a note and a velocity in 0..127 and an instrument whose samples have
  root notes in 0..127: when some sample's velocity range contains the velocity,
  \<open>instrument_find_sample\<close> returns a sample whose range contains it and whose note
  distance is least among those samples; when no range contains the velocity and the
  instrument has a sample, it returns a sample of least note distance among all; and it
  returns no match exactly when the instrument owns no sample.
\<close>

theorem instrument_find_sample_correct:
  assumes nt: "note \<le> 127" and vel: "velocity \<le> 127"
    and roots: "\<forall>s \<in> set (samples inst). root_note (meta s) \<le> 127"
  shows "((\<exists>t \<in> set (samples inst).
             velocity_low (meta t) \<le> velocity \<and> velocity \<le> velocity_high (meta t)) \<longrightarrow>
          (\<exists>s \<in> set (samples inst).
             instrument_find_sample (Some inst) note velocity = Some s
             \<and> velocity_low (meta s) \<le> velocity \<and> velocity \<le> velocity_high (meta s)
             \<and> (\<forall>t \<in> set (samples inst).
                   velocity_low (meta t) \<le> velocity \<and> velocity \<le> velocity_high (meta t)
                   \<longrightarrow> note_distance note s \<le> note_distance note t)))
       \<and> (\<not> (\<exists>t \<in> set (samples inst).
               velocity_low (meta t) \<le> velocity \<and> velocity \<le> velocity_high (meta t)) \<longrightarrow>
          samples inst \<noteq> [] \<longrightarrow>
          (\<exists>s \<in> set (samples inst).
             instrument_find_sample (Some inst) note velocity = Some s
             \<and> (\<forall>t \<in> set (samples inst). note_distance note s \<le> note_distance note t)))
       \<and> (instrument_find_sample (Some inst) note velocity = None \<longleftrightarrow> samples inst = [])"
proof -
  let ?m = "\<lambda>t. velocity_low (meta t) \<le> velocity \<and> velocity \<le> velocity_high (meta t)"
  obtain b d where bd: "find_velocity_loop note velocity (samples inst) (None, 128) = (b, d)"
    by (cases "find_velocity_loop note velocity (samples inst) (None, 128)")
  note inv1 = find_velocity_loop_inv [OF bd]
  have near: "\<And>t. t \<in> set (samples inst) \<Longrightarrow> note_distance note t < 128"
    using nt roots by (simp add: note_distance_bound)
  show ?thesis
  proof (cases "\<exists>t \<in> set (samples inst). ?m t")
    case True
    then obtain t where t: "t \<in> set (samples inst)" "?m t" by blast
    with inv1 have "d \<le> note_distance note t" by blast
    with near [OF t(1)] have "d \<noteq> 128" by simp
    with inv1 obtain s where s: "s \<in> set (samples inst)" "?m s" "b = Some s"
      "d = note_distance note s"
      by blast
    have res: "instrument_find_sample (Some inst) note velocity = Some s"
      using bd s(3) by (simp add: instrument_find_sample_def)
    have "\<forall>t \<in> set (samples inst). ?m t \<longrightarrow> note_distance note s \<le> note_distance note t"
      using inv1 s(4) by simp
    with res s True show ?thesis by auto
  next
    case False
    with inv1 have none: "b = None" "d = 128" by auto
    show ?thesis
    proof (cases "samples inst")
      case Nil
      with bd none False show ?thesis by (simp add: instrument_find_sample_def)
    next
      case (Cons x xs)
      obtain b' d' where bd': "find_closest_loop note (samples inst) (None, 128) = (b', d')"
        by (cases "find_closest_loop note (samples inst) (None, 128)")
      note inv2 = find_closest_loop_inv [OF bd']
      have "x \<in> set (samples inst)" using Cons by simp
      with inv2 near have "d' \<noteq> 128" by force
      with inv2 obtain s where s: "s \<in> set (samples inst)" "b' = Some s"
        "d' = note_distance note s"
        by blast
      have res: "instrument_find_sample (Some inst) note velocity = Some s"
        using bd none bd' s(2) Cons by (simp add: instrument_find_sample_def)
      have "\<forall>t \<in> set (samples inst). note_distance note s \<le> note_distance note t"
        using inv2 s(3) by simp
      with res s False Cons show ?thesis by auto
    qed
  qed
qed

theorem instrument_find_sample_correct_witness:
  "(\<exists>s \<in> set (samples example_instrument).
      instrument_find_sample (Some example_instrument) 70 100 = Some s
      \<and> velocity_low (meta s) \<le> 100 \<and> 100 \<le> velocity_high (meta s)
      \<and> (\<forall>t \<in> set (samples example_instrument).
            velocity_low (meta t) \<le> 100 \<and> 100 \<le> velocity_high (meta t)
            \<longrightarrow> note_distance 70 s \<le> note_distance 70 t))
   \<and> instrument_find_sample (Some example_instrument) 70 100 = Some example_sample_b
   \<and> (\<exists>s \<in> set (samples example_instrument).
      instrument_find_sample (Some example_instrument) 50 10 = Some s
      \<and> (\<forall>t \<in> set (samples example_instrument). note_distance 50 s \<le> note_distance 50 t))
   \<and> instrument_find_sample (Some example_instrument) 50 10 = Some example_sample_c
   \<and> instrument_find_sample (Some (example_instrument\<lparr>samples := []\<rparr>)) 60 100 = None"
proof -
  have roots: "\<forall>s \<in> set (samples example_instrument). root_note (meta s) \<le> 127"
    by (simp add: example_instrument_def example_sample_a_def example_sample_b_def
          example_sample_c_def example_meta_def)
  have m1: "\<exists>t \<in> set (samples example_instrument).
              velocity_low (meta t) \<le> 100 \<and> 100 \<le> velocity_high (meta t)"
    by (simp add: example_instrument_def example_sample_a_def example_sample_b_def
          example_sample_c_def example_meta_def)
  have m2: "\<not> (\<exists>t \<in> set (samples example_instrument).
              velocity_low (meta t) \<le> 10 \<and> 10 \<le> velocity_high (meta t))"
    by (simp add: example_instrument_def example_sample_a_def example_sample_b_def
          example_sample_c_def example_meta_def)
  have ne: "samples example_instrument \<noteq> []"
    by (simp add: example_instrument_def)
  have c1: "\<exists>s \<in> set (samples example_instrument).
      instrument_find_sample (Some example_instrument) 70 100 = Some s
      \<and> velocity_low (meta s) \<le> 100 \<and> 100 \<le> velocity_high (meta s)
      \<and> (\<forall>t \<in> set (samples example_instrument).
            velocity_low (meta t) \<le> 100 \<and> 100 \<le> velocity_high (meta t)
            \<longrightarrow> note_distance 70 s \<le> note_distance 70 t)"
    using instrument_find_sample_correct [of 70 100 example_instrument, OF _ _ roots] m1
    by simp
  have c2: "\<exists>s \<in> set (samples example_instrument).
      instrument_find_sample (Some example_instrument) 50 10 = Some s
      \<and> (\<forall>t \<in> set (samples example_instrument). note_distance 50 s \<le> note_distance 50 t)"
    using instrument_find_sample_correct [of 50 10 example_instrument, OF _ _ roots] m2 ne
    by simp
  have c3: "instrument_find_sample (Some (example_instrument\<lparr>samples := []\<rparr>)) 60 100 = None"
    using instrument_find_sample_correct [of 60 100 "example_instrument\<lparr>samples := []\<rparr>"]
    by simp
  have e1: "instrument_find_sample (Some example_instrument) 70 100 = Some example_sample_b"
    by (simp add: instrument_find_sample_def example_instrument_def example_sample_a_def
          example_sample_b_def example_sample_c_def example_meta_def note_distance_def)
  have e2: "instrument_find_sample (Some example_instrument) 50 10 = Some example_sample_c"
    by (simp add: instrument_find_sample_def example_instrument_def example_sample_a_def
          example_sample_b_def example_sample_c_def example_meta_def note_distance_def)
  from c1 e1 c2 e2 c3 show ?thesis by blast
qed

section \<open>Properties of the envelope generator\<close>

text \<open>
  A product that is an integer of fewer than 25 bits is a \<open>float\<close>: rounding leaves it
  as it is.
\<close>

lemma round_even_of_int: "round_even (of_int z) = z"
  by (simp add: round_even_def)

lemma float_exponent_le:
  assumes "\<bar>x\<bar> < 2 ^ 24"
  shows "float_exponent x \<le> 23"
proof (cases "find (\<lambda>e. 2 powi e \<le> \<bar>x\<bar>) (rev [-126 .. 127])")
  case None
  then show ?thesis by (simp add: float_exponent_def)
next
  case (Some e)
  then have "(2::real) powi e \<le> \<bar>x\<bar>" by (auto simp: find_Some_iff)
  with assms have "(2::real) powi e < 2 powi 24" by simp
  then have "e < 24"
  proof -
    assume a: "(2::real) powi e < 2 powi 24"
    show ?thesis
    proof (rule ccontr)
      assume "\<not> e < 24"
      then have "24 \<le> e" by simp
      then have "(2::real) powi 24 \<le> 2 powi e" by (intro power_int_increasing) simp_all
      with a show False by simp
    qed
  qed
  with Some show ?thesis by (simp add: float_exponent_def)
qed

lemma float_round_int:
  assumes "x \<in> \<int>" "\<bar>x\<bar> < 2 ^ 24"
  shows "float_round x = x"
proof -
  from assms(1) obtain z where z: "x = of_int z" by (auto elim: Ints_cases)
  define k where "k = nat (23 - float_exponent x)"
  have e: "float_exponent x - 23 = - int k"
    using float_exponent_le [OF assms(2)] by (simp add: k_def)
  have q: "(2::real) powi (float_exponent x - 23) = 1 / 2 ^ k"
    unfolding e by (simp add: power_int_minus divide_inverse)
  have "x / (1 / 2 ^ k) = of_int (z * 2 ^ k)" by (simp add: z)
  then have "round_even (x / (1 / 2 ^ k)) = z * 2 ^ k"
    by (simp only: round_even_of_int)
  then have "of_int (round_even (x / (1 / 2 ^ k))) * (1 / 2 ^ k) = x"
    by (simp add: z)
  then show ?thesis
    unfolding float_round_def Let_def q .
qed

lemma float_mul_int:
  "x * y \<in> \<int> \<Longrightarrow> \<bar>x * y\<bar> < 2 ^ 24 \<Longrightarrow> float_mul x y = x * y"
  by (simp add: float_mul_def float_round_int)

lemma clamp_level_id:
  "0 \<le> current_level env \<Longrightarrow> current_level env \<le> 1 \<Longrightarrow> clamp_level env = env"
  by (simp add: clamp_level_def)

lemma clamp_level_fields:
  "stage (clamp_level env) = stage env"
  "params (clamp_level env) = params env"
  "env_sample_rate (clamp_level env) = env_sample_rate env"
  "stage_samples (clamp_level env) = stage_samples env"
  "samples_processed (clamp_level env) = samples_processed env"
  "attack_coeff (clamp_level env) = attack_coeff env"
  "decay_coeff (clamp_level env) = decay_coeff env"
  "release_coeff (clamp_level env) = release_coeff env"
  by (simp_all add: clamp_level_def Let_def)

lemma clamp_level_range:
  "0 \<le> current_level (clamp_level env)" "current_level (clamp_level env) \<le> 1"
  by (simp_all add: clamp_level_def Let_def)

lemma envelope_process_sustain_inv:
  assumes "0 \<le> sustain_level p" "sustain_level p \<le> 1" "sustain_inv p env"
  shows "sustain_inv p (snd (envelope_process env))"
  using assms
  by (cases "stage env")
     (auto simp: sustain_inv_def envelope_process_def Let_def clamp_level_fields clamp_level_id)

lemma envelope_process_rt_sustain_inv:
  assumes "0 \<le> sustain_level p" "sustain_level p \<le> 1" "sustain_inv p env"
  shows "sustain_inv p (snd (envelope_process_rt env))"
  using assms
  by (cases "stage env")
     (auto simp: sustain_inv_def envelope_process_rt_def Let_def clamp_level_fields clamp_level_id)

lemma process_n_inv:
  assumes step: "\<And>e. P e \<Longrightarrow> P (snd (step e))"
  shows "P env \<Longrightarrow> P (snd (process_n step n env))"
proof (induction n arbitrary: env)
  case 0
  then show ?case by simp
next
  case (Suc n)
  from Suc.IH [OF step [OF Suc.prems]] show ?case
    by (simp add: split_beta)
qed

lemma process_n_length: "length (fst (process_n step n env)) = n"
  by (induction n arbitrary: env) (simp_all add: split_beta)

lemma process_n_add:
  "snd (process_n step (m + n) env) = snd (process_n step n (snd (process_n step m env)))"
  by (induction m arbitrary: env) (simp_all add: split_beta)



lemma to_uint32_less: "to_uint32 x < 2 ^ 32"
proof (cases "-1 < x \<and> x < 2 ^ 32")
  case True
  then have "\<lfloor>x\<rfloor> < (4294967296::int)" by (simp add: floor_less_iff)
  then have "nat \<lfloor>x\<rfloor> < (4294967296::nat)" by linarith
  with True show ?thesis by (simp add: to_uint32_def)
next
  case False
  then show ?thesis by (auto simp: to_uint32_def)
qed

lemma stage_length_bounds: "0 < stage_length t sr" "stage_length t sr < 2 ^ 32"
  using to_uint32_less [of "float_mul t sr"] by (simp_all add: stage_length_def Let_def)

lemma counter_step: "(k::nat) < n \<Longrightarrow> n < 2 ^ 32 \<Longrightarrow> (k + 1) mod 2 ^ 32 = k + 1"
  by (rule mod_less) simp

lemma count_run:
  "stage env = st \<Longrightarrow> st \<in> {ENV_ATTACK, ENV_DECAY, ENV_RELEASE} \<Longrightarrow>
   samples_processed env + k = stage_samples env \<Longrightarrow> stage_samples env < 2 ^ 32 \<Longrightarrow>
   stage (snd (process_n envelope_process k env)) = st
   \<and> samples_processed (snd (process_n envelope_process k env)) = stage_samples env
   \<and> stage_samples (snd (process_n envelope_process k env)) = stage_samples env
   \<and> params (snd (process_n envelope_process k env)) = params env
   \<and> env_sample_rate (snd (process_n envelope_process k env)) = env_sample_rate env"
proof (induction k arbitrary: env)
  case 0
  then show ?case by simp
next
  case (Suc k)
  let ?e = "snd (envelope_process env)"
  have lt: "samples_processed env < stage_samples env" using Suc.prems(3) by simp
  have cs: "(samples_processed env + 1) mod 2 ^ 32 = samples_processed env + 1"
    using lt Suc.prems(4) by (rule counter_step)
  have e: "stage ?e = st" "samples_processed ?e = samples_processed env + 1"
    "stage_samples ?e = stage_samples env" "params ?e = params env"
    "env_sample_rate ?e = env_sample_rate env"
    using Suc.prems(1,2) lt cs
    by (auto simp add: envelope_process_def Let_def clamp_level_fields simp del: One_nat_def)
  have "samples_processed ?e + k = stage_samples ?e" using e Suc.prems(3) by simp
  from Suc.IH [OF e(1) Suc.prems(2) this] e Suc.prems(4) show ?case
    by (simp add: split_beta)
qed

lemma count_run_rt:
  "stage env = st \<Longrightarrow> st \<in> {ENV_ATTACK, ENV_DECAY, ENV_RELEASE} \<Longrightarrow>
   samples_processed env + k = stage_samples env \<Longrightarrow> stage_samples env < 2 ^ 32 \<Longrightarrow>
   stage (snd (process_n envelope_process_rt k env)) = st
   \<and> samples_processed (snd (process_n envelope_process_rt k env)) = stage_samples env
   \<and> stage_samples (snd (process_n envelope_process_rt k env)) = stage_samples env
   \<and> params (snd (process_n envelope_process_rt k env)) = params env
   \<and> env_sample_rate (snd (process_n envelope_process_rt k env)) = env_sample_rate env"
proof (induction k arbitrary: env)
  case 0
  then show ?case by simp
next
  case (Suc k)
  let ?e = "snd (envelope_process_rt env)"
  have lt: "samples_processed env < stage_samples env" using Suc.prems(3) by simp
  have cs: "(samples_processed env + 1) mod 2 ^ 32 = samples_processed env + 1"
    using lt Suc.prems(4) by (rule counter_step)
  have e: "stage ?e = st" "samples_processed ?e = samples_processed env + 1"
    "stage_samples ?e = stage_samples env" "params ?e = params env"
    "env_sample_rate ?e = env_sample_rate env"
    using Suc.prems(1,2) lt cs
    by (auto simp add: envelope_process_rt_def Let_def clamp_level_fields simp del: One_nat_def)
  have "samples_processed ?e + k = stage_samples ?e" using e Suc.prems(3) by simp
  from Suc.IH [OF e(1) Suc.prems(2) this] e Suc.prems(4) show ?case
    by (simp add: split_beta)
qed


lemma reach_sustain:
  "stage (snd (process_n envelope_process
            (Suc (Suc (stage_length (attack_time p) sr + stage_length (decay_time p) sr)))
            (envelope_trigger (envelope_init sr p)))) = ENV_SUSTAIN"
proof -
  let ?A = "stage_length (attack_time p) sr"
  let ?D = "stage_length (decay_time p) sr"
  let ?e0 = "envelope_trigger (envelope_init sr p)"
  let ?e1 = "snd (process_n envelope_process ?A ?e0)"
  let ?e2 = "snd (envelope_process ?e1)"
  let ?e3 = "snd (process_n envelope_process ?D ?e2)"
  let ?e4 = "snd (envelope_process ?e3)"
  have e0: "stage ?e0 = ENV_ATTACK" "samples_processed ?e0 + ?A = stage_samples ?e0"
    "stage_samples ?e0 = ?A" "params ?e0 = p" "env_sample_rate ?e0 = sr"
    by (simp_all add: envelope_trigger_def envelope_init_def stage_length_def Let_def)
  have A: "stage_samples ?e0 < 2 ^ 32" using e0(3) stage_length_bounds(2) by simp
  from count_run [OF e0(1) _ e0(2) A] e0
  have e1: "stage ?e1 = ENV_ATTACK" "samples_processed ?e1 = ?A" "stage_samples ?e1 = ?A"
    "params ?e1 = p" "env_sample_rate ?e1 = sr"
    by simp_all
  then have e2: "stage ?e2 = ENV_DECAY" "samples_processed ?e2 + ?D = stage_samples ?e2"
    "stage_samples ?e2 = ?D" "params ?e2 = p"
    by (simp_all add: envelope_process_def Let_def clamp_level_fields stage_length_def)
  have D: "stage_samples ?e2 < 2 ^ 32" using e2(3) stage_length_bounds(2) by simp
  from count_run [OF e2(1) _ e2(2) D] e2
  have e3: "stage ?e3 = ENV_DECAY" "samples_processed ?e3 = ?D" "stage_samples ?e3 = ?D"
    by simp_all
  then have e4: "stage ?e4 = ENV_SUSTAIN"
    by (simp add: envelope_process_def Let_def clamp_level_fields)
  have "snd (process_n envelope_process (Suc (Suc (?A + ?D))) ?e0) = ?e4"
  proof -
    have "Suc (Suc (?A + ?D)) = ?A + (Suc 0 + (?D + Suc 0))" by simp
    then show ?thesis
      by (simp only: process_n_add) (simp add: split_beta)
  qed
  with e4 show ?thesis by simp
qed

lemma reach_sustain_rt:
  "stage (snd (process_n envelope_process_rt
            (Suc (Suc (stage_length (attack_time p) sr
                       + to_uint32 (float_mul (decay_time p) sr))))
            (envelope_trigger (envelope_init_rt sr p)))) = ENV_SUSTAIN"
proof -
  let ?A = "stage_length (attack_time p) sr"
  let ?D = "to_uint32 (float_mul (decay_time p) sr)"
  let ?e0 = "envelope_trigger (envelope_init_rt sr p)"
  let ?e1 = "snd (process_n envelope_process_rt ?A ?e0)"
  let ?e2 = "snd (envelope_process_rt ?e1)"
  let ?e3 = "snd (process_n envelope_process_rt ?D ?e2)"
  let ?e4 = "snd (envelope_process_rt ?e3)"
  have e0: "stage ?e0 = ENV_ATTACK" "samples_processed ?e0 + ?A = stage_samples ?e0"
    "stage_samples ?e0 = ?A" "params ?e0 = p" "env_sample_rate ?e0 = sr"
    by (simp_all add: envelope_trigger_def envelope_init_rt_def stage_length_def Let_def)
  have A: "stage_samples ?e0 < 2 ^ 32" using e0(3) stage_length_bounds(2) by simp
  from count_run_rt [OF e0(1) _ e0(2) A] e0
  have e1: "stage ?e1 = ENV_ATTACK" "samples_processed ?e1 = ?A" "stage_samples ?e1 = ?A"
    "params ?e1 = p" "env_sample_rate ?e1 = sr"
    by simp_all
  then have e2: "stage ?e2 = ENV_DECAY" "samples_processed ?e2 + ?D = stage_samples ?e2"
    "stage_samples ?e2 = ?D" "params ?e2 = p"
    by (simp_all add: envelope_process_rt_def Let_def clamp_level_fields)
  have D: "stage_samples ?e2 < 2 ^ 32" using e2(3) to_uint32_less by simp
  from count_run_rt [OF e2(1) _ e2(2) D] e2
  have e3: "stage ?e3 = ENV_DECAY" "samples_processed ?e3 = ?D" "stage_samples ?e3 = ?D"
    by simp_all
  then have e4: "stage ?e4 = ENV_SUSTAIN"
    by (simp add: envelope_process_rt_def Let_def clamp_level_fields)
  have "snd (process_n envelope_process_rt (Suc (Suc (?A + ?D))) ?e0) = ?e4"
  proof -
    have "Suc (Suc (?A + ?D)) = ?A + (Suc 0 + (?D + Suc 0))" by simp
    then show ?thesis
      by (simp only: process_n_add) (simp add: split_beta)
  qed
  with e4 show ?thesis by simp
qed

lemma example_stage_lengths:
  "stage_length (attack_time example_envelope) 4 = 2"
  "stage_length (decay_time example_envelope) 4 = 2"
  "to_uint32 (float_mul (decay_time example_envelope) 4) = 2"
  by (simp_all add: stage_length_def to_uint32_def example_envelope_def float_mul_int)

text \<open>
  Claim C3. A generator initialised with parameters \<open>p\<close> and then triggered returns
  exactly 0 from its first \<open>process()\<close> call, in both builds. With a sustain level in
  [0, 1], the Decay stage completes (the stage is Sustain after the attack frames, the
  decay frames and the two transition calls), and every call made while the stage is
  Sustain returns exactly the configured sustain level and leaves the stage Sustain.
\<close>

theorem envelope_first_zero_then_sustain:
  assumes "0 \<le> sustain_level p" "sustain_level p \<le> 1"
  shows "fst (envelope_process (envelope_trigger (envelope_init sr p))) = 0
       \<and> fst (envelope_process_rt (envelope_trigger (envelope_init_rt sr p))) = 0
       \<and> stage (snd (process_n envelope_process
                  (Suc (Suc (stage_length (attack_time p) sr + stage_length (decay_time p) sr)))
                  (envelope_trigger (envelope_init sr p)))) = ENV_SUSTAIN
       \<and> stage (snd (process_n envelope_process_rt
                  (Suc (Suc (stage_length (attack_time p) sr
                       + to_uint32 (float_mul (decay_time p) sr))))
                  (envelope_trigger (envelope_init_rt sr p)))) = ENV_SUSTAIN
       \<and> (stage (snd (process_n envelope_process n (envelope_trigger (envelope_init sr p))))
            = ENV_SUSTAIN \<longrightarrow>
          fst (envelope_process
                 (snd (process_n envelope_process n (envelope_trigger (envelope_init sr p)))))
            = sustain_level p
          \<and> stage (snd (envelope_process
                 (snd (process_n envelope_process n (envelope_trigger (envelope_init sr p))))))
            = ENV_SUSTAIN)
       \<and> (stage (snd (process_n envelope_process_rt m (envelope_trigger (envelope_init_rt sr p))))
            = ENV_SUSTAIN \<longrightarrow>
          fst (envelope_process_rt
                 (snd (process_n envelope_process_rt m (envelope_trigger (envelope_init_rt sr p)))))
            = sustain_level p
          \<and> stage (snd (envelope_process_rt
                 (snd (process_n envelope_process_rt m (envelope_trigger (envelope_init_rt sr p))))))
            = ENV_SUSTAIN)"
proof -
  let ?a = "envelope_trigger (envelope_init sr p)"
  let ?b = "envelope_trigger (envelope_init_rt sr p)"
  let ?e = "snd (process_n envelope_process n ?a)"
  let ?r = "snd (process_n envelope_process_rt m ?b)"
  have c1: "fst (envelope_process ?a) = 0"
    by (simp add: envelope_process_def envelope_trigger_def envelope_init_def Let_def)
  have c2: "fst (envelope_process_rt ?b) = 0"
    by (simp add: envelope_process_rt_def envelope_trigger_def envelope_init_rt_def Let_def)
  have i0: "sustain_inv p ?a"
    by (simp add: sustain_inv_def envelope_trigger_def envelope_init_def Let_def)
  have j0: "sustain_inv p ?b"
    by (simp add: sustain_inv_def envelope_trigger_def envelope_init_rt_def Let_def)
  have i: "sustain_inv p ?e"
    using i0 by (rule process_n_inv [rotated]) (rule envelope_process_sustain_inv [OF assms])
  have j: "sustain_inv p ?r"
    using j0 by (rule process_n_inv [rotated]) (rule envelope_process_rt_sustain_inv [OF assms])
  have c5: "stage ?e = ENV_SUSTAIN \<longrightarrow>
              fst (envelope_process ?e) = sustain_level p
              \<and> stage (snd (envelope_process ?e)) = ENV_SUSTAIN"
    using i by (simp add: sustain_inv_def envelope_process_def Let_def clamp_level_fields)
  have c6: "stage ?r = ENV_SUSTAIN \<longrightarrow>
              fst (envelope_process_rt ?r) = sustain_level p
              \<and> stage (snd (envelope_process_rt ?r)) = ENV_SUSTAIN"
    using j by (simp add: sustain_inv_def envelope_process_rt_def Let_def clamp_level_fields)
  from c1 c2 reach_sustain [of p sr] reach_sustain_rt [of p sr] c5 c6 show ?thesis
    by blast
qed

theorem envelope_first_zero_then_sustain_witness:
  "fst (envelope_process (envelope_trigger (envelope_init 4 example_envelope))) = 0
   \<and> fst (envelope_process_rt (envelope_trigger (envelope_init_rt 4 example_envelope))) = 0
   \<and> stage (snd (process_n envelope_process 6
              (envelope_trigger (envelope_init 4 example_envelope)))) = ENV_SUSTAIN
   \<and> fst (envelope_process (snd (process_n envelope_process 6
              (envelope_trigger (envelope_init 4 example_envelope))))) = 1/2
   \<and> stage (snd (process_n envelope_process_rt 6
              (envelope_trigger (envelope_init_rt 4 example_envelope)))) = ENV_SUSTAIN
   \<and> fst (envelope_process_rt (snd (process_n envelope_process_rt 6
              (envelope_trigger (envelope_init_rt 4 example_envelope))))) = 1/2"
proof -
  have s: "0 \<le> sustain_level example_envelope" "sustain_level example_envelope \<le> 1"
    "sustain_level example_envelope = 1/2"
    by (simp_all add: example_envelope_def)
  have six: "Suc (Suc (2 + 2)) = 6" by simp
  from envelope_first_zero_then_sustain [OF s(1,2), of 4 6 6]
  show ?thesis
    unfolding example_stage_lengths six s(3) by blast
qed

lemma process_n_outputs:
  assumes step: "\<And>e. P e \<Longrightarrow> P (snd (step e)) \<and> Q (fst (step e))"
  shows "P env \<Longrightarrow> \<forall>x \<in> set (fst (process_n step n env)). Q x"
proof (induction n arbitrary: env)
  case 0
  then show ?case by simp
next
  case (Suc n)
  from step [OF Suc.prems] have "P (snd (step env))" "Q (fst (step env))" by simp_all
  with Suc.IH [of "snd (step env)"] show ?case
    by (simp add: split_beta)
qed

lemma silent_release_rt_step:
  assumes "(stage env = ENV_RELEASE \<or> stage env = ENV_IDLE) \<and> current_level env = 0
           \<and> 0 \<le> release_coeff env"
  shows "((stage (snd (envelope_process_rt env)) = ENV_RELEASE
           \<or> stage (snd (envelope_process_rt env)) = ENV_IDLE)
          \<and> current_level (snd (envelope_process_rt env)) = 0
          \<and> 0 \<le> release_coeff (snd (envelope_process_rt env)))
         \<and> fst (envelope_process_rt env) = 0"
  using assms
  by (auto simp: envelope_process_rt_def Let_def clamp_level_def)

lemma envelope_init_rt_release_coeff:
  "0 \<le> sustain_level p \<Longrightarrow> 0 \<le> release_coeff (envelope_init_rt sr p)"
  by (simp add: envelope_init_rt_def Let_def)

text \<open>
  Claim C10, as stated, fails for \<open>core/envelope.c\<close>: the Release branch computes the
  level from the configured sustain level, so after \<open>release()\<close> on an idle generator the
  second \<open>process()\<close> call returns the sustain level. The outputs of the first two
  calls at a sustain level of 1/2:
\<close>

theorem release_from_idle_counterexample:
  "stage (envelope_init 4 example_envelope) = ENV_IDLE
   \<and> current_level (envelope_init 4 example_envelope) = 0
   \<and> fst (process_n envelope_process (Suc (Suc 0))
            (envelope_release (envelope_init 4 example_envelope))) = [0, 1/2]"
  by (simp add: envelope_init_def envelope_release_def envelope_process_def to_uint32_def
        float_mul_int
        example_envelope_def clamp_level_def Let_def)

text \<open>
  Claim C10, amended. For a generator whose stage is Idle and whose level is 0,
  \<open>release()\<close> followed by any number of \<open>process()\<close> calls of the real-time build
  (\<open>internal_rt.h\<close>) returns only 0, provided the release coefficient is not negative
  (as \<open>envelope_init\<close> computes it from a sustain level that is not negative). In
  \<open>core/envelope.c\<close> the first call after \<open>release()\<close> returns 0 and the second returns
  the configured sustain level clamped to [0, 1].
\<close>

theorem release_from_idle_amended:
  assumes "stage env = ENV_IDLE" "current_level env = 0"
  shows "(0 \<le> release_coeff env \<longrightarrow>
            (\<forall>x \<in> set (fst (process_n envelope_process_rt n (envelope_release env))). x = 0))
       \<and> fst (process_n envelope_process (Suc (Suc 0)) (envelope_release env))
           = [0, max 0 (min 1 (sustain_level (params env)))]"
proof -
  have rt: "\<forall>x \<in> set (fst (process_n envelope_process_rt n (envelope_release env))). x = 0"
    if "0 \<le> release_coeff env"
  proof (rule process_n_outputs [where P = "\<lambda>e. (stage e = ENV_RELEASE \<or> stage e = ENV_IDLE)
                \<and> current_level e = 0 \<and> 0 \<le> release_coeff e"])
    show "(stage (envelope_release env) = ENV_RELEASE \<or> stage (envelope_release env) = ENV_IDLE)
          \<and> current_level (envelope_release env) = 0
          \<and> 0 \<le> release_coeff (envelope_release env)"
      using assms that by (simp add: envelope_release_def Let_def)
  qed (rule silent_release_rt_step)
  have core: "fst (process_n envelope_process (Suc (Suc 0)) (envelope_release env))
                = [0, max 0 (min 1 (sustain_level (params env)))]"
    using assms
    by (auto simp: envelope_release_def envelope_process_def clamp_level_def Let_def)
  from rt core show ?thesis by blast
qed

theorem release_from_idle_amended_witness:
  "fst (process_n envelope_process_rt 5
          (envelope_release (envelope_init_rt 4 example_envelope))) = replicate 5 0
   \<and> fst (process_n envelope_process (Suc (Suc 0))
            (envelope_release (envelope_init 4 example_envelope))) = [0, 1/2]"
proof -
  have a: "stage (envelope_init_rt 4 example_envelope) = ENV_IDLE"
    "current_level (envelope_init_rt 4 example_envelope) = 0"
    "stage (envelope_init 4 example_envelope) = ENV_IDLE"
    "current_level (envelope_init 4 example_envelope) = 0"
    by (simp_all add: envelope_init_rt_def envelope_init_def Let_def)
  have b: "0 \<le> release_coeff (envelope_init_rt 4 example_envelope)"
    by (rule envelope_init_rt_release_coeff) (simp add: example_envelope_def)
  have c: "max 0 (min 1 (sustain_level (params (envelope_init 4 example_envelope)))) = 1/2"
    by (simp add: envelope_init_def example_envelope_def)
  have "\<forall>x \<in> set (fst (process_n envelope_process_rt 5
                     (envelope_release (envelope_init_rt 4 example_envelope)))). x = 0"
    using release_from_idle_amended [OF a(1,2), of 5] b by blast
  then have w1: "fst (process_n envelope_process_rt 5
          (envelope_release (envelope_init_rt 4 example_envelope))) = replicate 5 0"
    by (intro replicate_eqI) (simp_all add: process_n_length)
  have w2: "fst (process_n envelope_process (Suc (Suc 0))
            (envelope_release (envelope_init 4 example_envelope))) = [0, 1/2]"
    using release_from_idle_amended [OF a(3,4), of 0] c by simp
  from w1 w2 show ?thesis by blast
qed

section \<open>Properties of the frequency table\<close>

lemma table_milli: "MIDI_FREQ_TABLE = map (\<lambda>t. real t / 1000) MIDI_FREQ_MILLI"
  by (simp add: MIDI_FREQ_TABLE_def MIDI_FREQ_MILLI_def)

lemma table_length: "length MIDI_FREQ_MILLI = 128"
  by (simp add: MIDI_FREQ_MILLI_def)

lemma table_check_append:
  "table_check p (xs @ ys) \<longleftrightarrow> table_check p xs \<and> table_check (p * 2 ^ length xs) ys"
  by (induction xs arbitrary: p) (simp_all add: ac_simps)

lemma table_check_appendI:
  "table_check p xs \<Longrightarrow> length xs = k \<Longrightarrow> q = p * 2 ^ k \<Longrightarrow> table_check q ys
     \<Longrightarrow> table_check p (xs @ ys)"
  by (simp add: table_check_append)

lemma table_check_0:
  "table_check 1
     [8176, 8662, 9177, 9723, 10301, 10913, 11562, 12250,
      12978, 13750, 14568, 15434, 16352, 17324, 18354, 19445]"
  by (simp add: table_close_def)

lemma table_check_16:
  "table_check 65536
     [20602, 21827, 23125, 24500, 25957, 27500, 29135, 30868,
      32703, 34648, 36708, 38891, 41203, 43654, 46249, 48999]"
  by (simp add: table_close_def)

lemma table_check_32:
  "table_check 4294967296
     [51913, 55000, 58270, 61735, 65406, 69296, 73416, 77782,
      82407, 87307, 92499, 97999, 103826, 110000, 116541, 123471]"
  by (simp add: table_close_def)

lemma table_check_48:
  "table_check 281474976710656
     [130813, 138591, 146832, 155563, 164814, 174614, 184997, 195998,
      207652, 220000, 233082, 246942, 261626, 277183, 293665, 311127]"
  by (simp add: table_close_def)

lemma table_check_64:
  "table_check 18446744073709551616
     [329628, 349228, 369994, 391995, 415305, 440000, 466164, 493883,
      523251, 554365, 587330, 622254, 659255, 698456, 739989, 783991]"
  by (simp add: table_close_def)

lemma table_check_80:
  "table_check 1208925819614629174706176
     [830609, 880000, 932328, 987767, 1046502, 1108731, 1174659, 1244508,
      1318510, 1396913, 1479978, 1567982, 1661219, 1760000, 1864655, 1975533]"
  by (simp add: table_close_def)

lemma table_check_96:
  "table_check 79228162514264337593543950336
     [2093005, 2217461, 2349318, 2489016, 2637020, 2793826, 2959955, 3135963,
      3322438, 3520000, 3729310, 3951066, 4186009, 4434922, 4698636, 4978032]"
  by (simp add: table_close_def)

lemma table_check_112:
  "table_check 5192296858534827628530496329220096
     [5274041, 5587652, 5919911, 6271927, 6644875, 7040000, 7458620, 7902133,
      8372018, 8869844, 9397273, 9956063, 10548082, 11175303, 11839822, 12543854]"
  by (simp add: table_close_def)

lemma table_check_all: "table_check 1 MIDI_FREQ_MILLI"
proof -
  have c112: "table_check 5192296858534827628530496329220096
     [5274041, 5587652, 5919911, 6271927, 6644875, 7040000, 7458620, 7902133, 8372018, 8869844, 9397273, 9956063, 10548082, 11175303, 11839822, 12543854]"
    by (rule table_check_112)
  have c96: "table_check 79228162514264337593543950336
     ([2093005, 2217461, 2349318, 2489016, 2637020, 2793826, 2959955, 3135963, 3322438, 3520000, 3729310, 3951066, 4186009, 4434922, 4698636, 4978032]
     @ [5274041, 5587652, 5919911, 6271927, 6644875, 7040000, 7458620, 7902133, 8372018, 8869844, 9397273, 9956063, 10548082, 11175303, 11839822, 12543854])"
    by (rule table_check_appendI [where k = 16, OF table_check_96 _ _ c112]) simp_all
  have c80: "table_check 1208925819614629174706176
     ([830609, 880000, 932328, 987767, 1046502, 1108731, 1174659, 1244508, 1318510, 1396913, 1479978, 1567982, 1661219, 1760000, 1864655, 1975533]
     @ ([2093005, 2217461, 2349318, 2489016, 2637020, 2793826, 2959955, 3135963, 3322438, 3520000, 3729310, 3951066, 4186009, 4434922, 4698636, 4978032]
     @ [5274041, 5587652, 5919911, 6271927, 6644875, 7040000, 7458620, 7902133, 8372018, 8869844, 9397273, 9956063, 10548082, 11175303, 11839822, 12543854]))"
    by (rule table_check_appendI [where k = 16, OF table_check_80 _ _ c96]) simp_all
  have c64: "table_check 18446744073709551616
     ([329628, 349228, 369994, 391995, 415305, 440000, 466164, 493883, 523251, 554365, 587330, 622254, 659255, 698456, 739989, 783991]
     @ ([830609, 880000, 932328, 987767, 1046502, 1108731, 1174659, 1244508, 1318510, 1396913, 1479978, 1567982, 1661219, 1760000, 1864655, 1975533]
     @ ([2093005, 2217461, 2349318, 2489016, 2637020, 2793826, 2959955, 3135963, 3322438, 3520000, 3729310, 3951066, 4186009, 4434922, 4698636, 4978032]
     @ [5274041, 5587652, 5919911, 6271927, 6644875, 7040000, 7458620, 7902133, 8372018, 8869844, 9397273, 9956063, 10548082, 11175303, 11839822, 12543854])))"
    by (rule table_check_appendI [where k = 16, OF table_check_64 _ _ c80]) simp_all
  have c48: "table_check 281474976710656
     ([130813, 138591, 146832, 155563, 164814, 174614, 184997, 195998, 207652, 220000, 233082, 246942, 261626, 277183, 293665, 311127]
     @ ([329628, 349228, 369994, 391995, 415305, 440000, 466164, 493883, 523251, 554365, 587330, 622254, 659255, 698456, 739989, 783991]
     @ ([830609, 880000, 932328, 987767, 1046502, 1108731, 1174659, 1244508, 1318510, 1396913, 1479978, 1567982, 1661219, 1760000, 1864655, 1975533]
     @ ([2093005, 2217461, 2349318, 2489016, 2637020, 2793826, 2959955, 3135963, 3322438, 3520000, 3729310, 3951066, 4186009, 4434922, 4698636, 4978032]
     @ [5274041, 5587652, 5919911, 6271927, 6644875, 7040000, 7458620, 7902133, 8372018, 8869844, 9397273, 9956063, 10548082, 11175303, 11839822, 12543854]))))"
    by (rule table_check_appendI [where k = 16, OF table_check_48 _ _ c64]) simp_all
  have c32: "table_check 4294967296
     ([51913, 55000, 58270, 61735, 65406, 69296, 73416, 77782, 82407, 87307, 92499, 97999, 103826, 110000, 116541, 123471]
     @ ([130813, 138591, 146832, 155563, 164814, 174614, 184997, 195998, 207652, 220000, 233082, 246942, 261626, 277183, 293665, 311127]
     @ ([329628, 349228, 369994, 391995, 415305, 440000, 466164, 493883, 523251, 554365, 587330, 622254, 659255, 698456, 739989, 783991]
     @ ([830609, 880000, 932328, 987767, 1046502, 1108731, 1174659, 1244508, 1318510, 1396913, 1479978, 1567982, 1661219, 1760000, 1864655, 1975533]
     @ ([2093005, 2217461, 2349318, 2489016, 2637020, 2793826, 2959955, 3135963, 3322438, 3520000, 3729310, 3951066, 4186009, 4434922, 4698636, 4978032]
     @ [5274041, 5587652, 5919911, 6271927, 6644875, 7040000, 7458620, 7902133, 8372018, 8869844, 9397273, 9956063, 10548082, 11175303, 11839822, 12543854])))))"
    by (rule table_check_appendI [where k = 16, OF table_check_32 _ _ c48]) simp_all
  have c16: "table_check 65536
     ([20602, 21827, 23125, 24500, 25957, 27500, 29135, 30868, 32703, 34648, 36708, 38891, 41203, 43654, 46249, 48999]
     @ ([51913, 55000, 58270, 61735, 65406, 69296, 73416, 77782, 82407, 87307, 92499, 97999, 103826, 110000, 116541, 123471]
     @ ([130813, 138591, 146832, 155563, 164814, 174614, 184997, 195998, 207652, 220000, 233082, 246942, 261626, 277183, 293665, 311127]
     @ ([329628, 349228, 369994, 391995, 415305, 440000, 466164, 493883, 523251, 554365, 587330, 622254, 659255, 698456, 739989, 783991]
     @ ([830609, 880000, 932328, 987767, 1046502, 1108731, 1174659, 1244508, 1318510, 1396913, 1479978, 1567982, 1661219, 1760000, 1864655, 1975533]
     @ ([2093005, 2217461, 2349318, 2489016, 2637020, 2793826, 2959955, 3135963, 3322438, 3520000, 3729310, 3951066, 4186009, 4434922, 4698636, 4978032]
     @ [5274041, 5587652, 5919911, 6271927, 6644875, 7040000, 7458620, 7902133, 8372018, 8869844, 9397273, 9956063, 10548082, 11175303, 11839822, 12543854]))))))"
    by (rule table_check_appendI [where k = 16, OF table_check_16 _ _ c32]) simp_all
  have c0: "table_check 1
     ([8176, 8662, 9177, 9723, 10301, 10913, 11562, 12250, 12978, 13750, 14568, 15434, 16352, 17324, 18354, 19445]
     @ ([20602, 21827, 23125, 24500, 25957, 27500, 29135, 30868, 32703, 34648, 36708, 38891, 41203, 43654, 46249, 48999]
     @ ([51913, 55000, 58270, 61735, 65406, 69296, 73416, 77782, 82407, 87307, 92499, 97999, 103826, 110000, 116541, 123471]
     @ ([130813, 138591, 146832, 155563, 164814, 174614, 184997, 195998, 207652, 220000, 233082, 246942, 261626, 277183, 293665, 311127]
     @ ([329628, 349228, 369994, 391995, 415305, 440000, 466164, 493883, 523251, 554365, 587330, 622254, 659255, 698456, 739989, 783991]
     @ ([830609, 880000, 932328, 987767, 1046502, 1108731, 1174659, 1244508, 1318510, 1396913, 1479978, 1567982, 1661219, 1760000, 1864655, 1975533]
     @ ([2093005, 2217461, 2349318, 2489016, 2637020, 2793826, 2959955, 3135963, 3322438, 3520000, 3729310, 3951066, 4186009, 4434922, 4698636, 4978032]
     @ [5274041, 5587652, 5919911, 6271927, 6644875, 7040000, 7458620, 7902133, 8372018, 8869844, 9397273, 9956063, 10548082, 11175303, 11839822, 12543854])))))))"
    by (rule table_check_appendI [where k = 16, OF table_check_0 _ _ c16]) simp_all
  then show ?thesis by (simp add: MIDI_FREQ_MILLI_def)
qed

lemma table_check_nth:
  "table_check p ts \<Longrightarrow> i < length ts \<Longrightarrow> table_close (p * 2 ^ i) (ts ! i) \<and> 8176 \<le> ts ! i"
proof (induction ts arbitrary: p i)
  case Nil
  then show ?case by simp
next
  case (Cons t ts)
  show ?case
  proof (cases i)
    case 0
    with Cons.prems show ?thesis by simp
  next
    case (Suc j)
    with Cons.prems have "table_check (2 * p) ts" "j < length ts" by simp_all
    from Cons.IH [OF this] Suc show ?thesis by (simp add: mult.left_commute mult.assoc)
  qed
qed

lemma table_entry:
  assumes "n < 128"
  shows "table_close (2 ^ n) (MIDI_FREQ_MILLI ! n)" "8176 \<le> MIDI_FREQ_MILLI ! n"
    "MIDI_FREQ_TABLE ! n = real (MIDI_FREQ_MILLI ! n) / 1000"
  using table_check_nth [OF table_check_all, of n] assms
  by (simp_all add: table_length table_milli)

lemma table_pos: "0 < MIDI_FREQ_TABLE ! (k mod 128)"
proof -
  have "k mod 128 < 128" by simp
  from table_entry [OF this] show ?thesis by simp
qed

lemma midi_note_to_frequency_pos: "0 < midi_note_to_frequency n"
  by (simp add: midi_note_to_frequency_def)

lemma midi_note_to_frequency_pow12:
  "(midi_note_to_frequency n) ^ 12 * 2 ^ 69 = 440 ^ 12 * 2 ^ n"
proof -
  let ?x = "(2::real) powr (real_of_int (int n - 69) / 12)"
  have "?x ^ 12 = ?x powr (real (12::nat))"
    by (rule powr_realpow [symmetric]) simp
  also have "\<dots> = 2 powr (real_of_int (int n - 69) / 12 * real (12::nat))"
    by (rule powr_powr)
  also have "\<dots> = 2 powr (real n - 69)"
  proof -
    have "real_of_int (int n - 69) / 12 * real (12::nat) = real n - 69" by simp
    then show ?thesis by (simp only:)
  qed
  also have "\<dots> = 2 powr (real n) / 2 powr (real (69::nat))"
    by (simp add: powr_diff)
  also have "\<dots> = 2 ^ n / 2 ^ 69"
    by (simp only: powr_realpow [of 2, simplified])
  finally have "?x ^ 12 * 2 ^ 69 = 2 ^ n" by simp
  then show ?thesis
    by (simp add: midi_note_to_frequency_def power_mult_distrib)
qed

lemma table_close_real:
  assumes "table_close (2 ^ n) t" "1 \<le> t"
  shows "\<bar>real t / 1000 - midi_note_to_frequency n\<bar> \<le> 1 / 2000"
proof -
  let ?f = "midi_note_to_frequency n"
  have f: "(2000 * ?f) ^ 12 * 2 ^ 69 = 880000 ^ 12 * 2 ^ n"
  proof -
    have "(2000 * ?f) ^ 12 * 2 ^ 69 = 2000 ^ 12 * (?f ^ 12 * 2 ^ 69)"
      by (simp add: power_mult_distrib)
    also have "\<dots> = 2000 ^ 12 * (440 ^ 12 * 2 ^ n)"
      by (simp only: midi_note_to_frequency_pow12)
    also have "\<dots> = (2000 * 440) ^ 12 * 2 ^ n"
      by (simp add: power_mult_distrib)
    finally show ?thesis by simp
  qed
  have "(2 * t - 1) ^ 12 * 2 ^ 69 \<le> 880000 ^ 12 * 2 ^ n"
    and "880000 ^ 12 * 2 ^ n \<le> (2 * t + 1) ^ 12 * 2 ^ 69"
    using assms(1) unfolding table_close_def by blast+
  then have "real ((2 * t - 1) ^ 12 * 2 ^ 69) \<le> real (880000 ^ 12 * 2 ^ n)"
    and "real (880000 ^ 12 * 2 ^ n) \<le> real ((2 * t + 1) ^ 12 * 2 ^ 69)"
    by (simp_all only: of_nat_le_iff)
  then have lo: "real (2 * t - 1) ^ 12 * 2 ^ 69 \<le> 880000 ^ 12 * 2 ^ n"
    and hi: "(880000::real) ^ 12 * 2 ^ n \<le> (2 * real t + 1) ^ 12 * 2 ^ 69"
    by (simp_all only: of_nat_mult of_nat_power of_nat_numeral of_nat_add of_nat_1)
  have sub: "real (2 * t - 1) = 2 * real t - 1" using assms(2) by simp
  have "(2 * real t - 1) ^ 12 * 2 ^ 69 \<le> (2000 * ?f) ^ 12 * 2 ^ 69"
    using lo by (simp only: f sub)
  then have "(2 * real t - 1) ^ 12 \<le> (2000 * ?f) ^ 12" by simp
  then have l: "2 * real t - 1 \<le> 2000 * ?f"
    using midi_note_to_frequency_pos [of n]
    by (intro power_le_imp_le_base [of "2 * real t - 1" 11 "2000 * ?f"]) simp_all
  have "(2000 * ?f) ^ 12 * 2 ^ 69 \<le> (2 * real t + 1) ^ 12 * 2 ^ 69"
    using hi by (simp only: f)
  then have "(2000 * ?f) ^ 12 \<le> (2 * real t + 1) ^ 12" by simp
  then have h: "2000 * ?f \<le> 2 * real t + 1"
    by (intro power_le_imp_le_base [of "2000 * ?f" 11 "2 * real t + 1"]) simp_all
  from l h show ?thesis by (intro abs_leI) linarith+
qed


lemma table_abs:
  assumes "n < 128"
  shows "\<bar>MIDI_FREQ_TABLE ! n - midi_note_to_frequency n\<bar> \<le> 1 / 2000"
    and "8 \<le> midi_note_to_frequency n"
proof -
  have t: "table_close (2 ^ n) (MIDI_FREQ_MILLI ! n)" "8176 \<le> MIDI_FREQ_MILLI ! n"
    "MIDI_FREQ_TABLE ! n = real (MIDI_FREQ_MILLI ! n) / 1000"
    using table_entry [OF assms] by simp_all
  from t(2) have "1 \<le> MIDI_FREQ_MILLI ! n" by simp
  from table_close_real [OF t(1) this]
  show a: "\<bar>MIDI_FREQ_TABLE ! n - midi_note_to_frequency n\<bar> \<le> 1 / 2000"
    by (simp only: t(3))
  from t(2) have "8176 \<le> real (MIDI_FREQ_MILLI ! n)" by simp
  then have "8176 / 1000 \<le> MIDI_FREQ_TABLE ! n" by (simp add: t(3))
  with a show "8 \<le> midi_note_to_frequency n" by linarith
qed

lemma ratio_close:
  fixes t u f g :: real
  assumes f: "8 \<le> f" and g: "8 \<le> g"
    and t: "\<bar>t - f\<bar> \<le> 1 / 2000" and u: "\<bar>u - g\<bar> \<le> 1 / 2000"
  shows "\<bar>t / u - f / g\<bar> \<le> (f / g) / 5000"
proof -
  have u0: "0 < u" using g u by linarith
  have g0: "0 < g" using g by linarith
  have t1: "t \<le> f * (16001 / 16000)" "f * (15999 / 16000) \<le> t" using f t by linarith+
  have u1: "u \<le> g * (16001 / 16000)" "g * (15999 / 16000) \<le> u" using g u by linarith+
  have fg: "0 \<le> f * g" using f g by simp
  have a: "t * g \<le> f * g * (16001 / 16000)"
    using mult_right_mono [OF t1(1), of g] g0 by (simp add: ac_simps)
  have b: "f * g * (15999 / 16000) \<le> t * g"
    using mult_right_mono [OF t1(2), of g] g0 by (simp add: ac_simps)
  have c: "f * u \<le> f * g * (16001 / 16000)"
    using mult_left_mono [OF u1(1), of f] f by (simp add: ac_simps)
  have d: "f * g * (15999 / 16000) \<le> f * u"
    using mult_left_mono [OF u1(2), of f] f by (simp add: ac_simps)
  have up: "5000 * (t * g) \<le> 5001 * (f * u)" using a d fg by linarith
  have lo: "4999 * (f * u) \<le> 5000 * (t * g)" using b c fg by linarith
  have eq: "t / u - f / g = (t * g - f * u) / (u * g)"
    using u0 g0 by (simp add: field_simps)
  have bound: "\<bar>t * g - f * u\<bar> \<le> (f * u) / 5000" using up lo by (intro abs_leI) linarith+
  have "\<bar>t / u - f / g\<bar> = \<bar>t * g - f * u\<bar> / (u * g)"
    using u0 g0 by (simp add: eq abs_mult)
  also have "\<dots> \<le> ((f * u) / 5000) / (u * g)"
    using bound u0 g0 by (intro divide_right_mono) simp_all
  also have "\<dots> = (f / g) / 5000"
    using u0 g0 by (simp add: field_simps)
  finally show ?thesis .
qed

lemma note_mod: "(n::nat) < 128 \<Longrightarrow> n mod 128 = n"
  by (rule mod_less)

lemma semitone_ratio: "(midi_note_to_frequency 61 / midi_note_to_frequency 60) ^ 12 = 2"
proof -
  have a: "midi_note_to_frequency 61 ^ 12 * 2 ^ 69 = 440 ^ 12 * 2 ^ 61"
    and b: "midi_note_to_frequency 60 ^ 12 * 2 ^ 69 = 440 ^ 12 * 2 ^ 60"
    by (rule midi_note_to_frequency_pow12)+
  have "(midi_note_to_frequency 61 / midi_note_to_frequency 60) ^ 12
          = (midi_note_to_frequency 61 ^ 12 * 2 ^ 69) / (midi_note_to_frequency 60 ^ 12 * 2 ^ 69)"
    by (simp add: power_divide)
  also have "\<dots> = (440 ^ 12 * 2 ^ 61) / (440 ^ 12 * 2 ^ 60)"
    by (simp only: a b)
  also have "\<dots> = 2" by simp
  finally show ?thesis .
qed

lemma table_60_61: "MIDI_FREQ_TABLE ! 61 = 277183 / 1000" "MIDI_FREQ_TABLE ! 60 = 261626 / 1000"
  by (simp_all add: MIDI_FREQ_TABLE_def)

text \<open>
  Claim C7, as stated, fails: the table holds the frequencies rounded to three decimals.
  One semitone above the root note the table gives the speed 277.183 / 261.626, whose
  twelfth power is not 2.
\<close>

theorem table_speed_counterexample:
  "playback_speed (voice_trigger_rt (voice_init 1 48000) (Some example_sample_a) 61 100
                     (Some example_envelope))
   \<noteq> playback_speed (voice_trigger (voice_init 1 48000) (Some example_sample_a) 61 100
                       (Some example_envelope))"
proof
  assume "playback_speed (voice_trigger_rt (voice_init 1 48000) (Some example_sample_a) 61 100
                     (Some example_envelope))
   = playback_speed (voice_trigger (voice_init 1 48000) (Some example_sample_a) 61 100
                       (Some example_envelope))"
  then have "(277183 / 1000) / (261626 / 1000)
               = midi_note_to_frequency 61 / midi_note_to_frequency 60"
    by (simp add: voice_trigger_rt_def voice_trigger_def voice_init_def Let_def
          midi_note_to_frequency_rt_def table_60_61 example_sample_a_def example_meta_def)
  then have "((277183 / 1000) / (261626 / 1000)) ^ 12 = (2::real)"
    by (simp only: semitone_ratio)
  then have "(277183::real) ^ 12 = 2 * 261626 ^ 12"
    by (simp add: field_simps)
  then show False by simp
qed

text \<open>
  Claim C7, amended. For a note and a root note in 0..127 and any pitch-bend multiplier,
  the speed \<open>voice_trigger\<close> of \<open>voice_rt.c\<close> sets from the table differs from the speed
  of the equal-tempered relation by at most one part in 5000 of the latter; each table
  entry is within 0.0005 of \<open>440 * 2^((n - 69) / 12)\<close>; and the two speeds are equal (to the
  pitch-bend multiplier) when the note is the root note.
\<close>

theorem table_speed_close:
  assumes "note < 128" "root_note (meta s) < 128"
  shows "\<bar>playback_speed (voice_trigger_rt v (Some s) note vel (Some e))
           - playback_speed (voice_trigger v (Some s) note vel (Some e))\<bar>
         \<le> \<bar>playback_speed (voice_trigger v (Some s) note vel (Some e))\<bar> / 5000
       \<and> \<bar>midi_note_to_frequency_rt note - midi_note_to_frequency note\<bar> \<le> 1 / 2000
       \<and> (note = root_note (meta s) \<longrightarrow>
            playback_speed (voice_trigger_rt v (Some s) note vel (Some e))
              = pitch_bend_multiplier v
            \<and> playback_speed (voice_trigger v (Some s) note vel (Some e))
              = pitch_bend_multiplier v)"
proof -
  let ?r = "root_note (meta s)"
  let ?t = "MIDI_FREQ_TABLE ! note" and ?u = "MIDI_FREQ_TABLE ! ?r"
  let ?f = "midi_note_to_frequency note" and ?g = "midi_note_to_frequency ?r"
  let ?m = "pitch_bend_multiplier v"
  have rt: "playback_speed (voice_trigger_rt v (Some s) note vel (Some e)) = ?t / ?u * ?m"
    using assms by (simp add: voice_trigger_rt_def Let_def midi_note_to_frequency_rt_def)
  have co: "playback_speed (voice_trigger v (Some s) note vel (Some e)) = ?f / ?g * ?m"
    by (simp add: voice_trigger_def Let_def)
  note n = table_abs [OF assms(1)] and r = table_abs [OF assms(2)]
  have close: "\<bar>?t / ?u - ?f / ?g\<bar> \<le> (?f / ?g) / 5000"
    using n(2) r(2) n(1) r(1) by (rule ratio_close)
  have pos: "0 \<le> ?f / ?g" using n(2) r(2) by simp
  have "\<bar>?t / ?u * ?m - ?f / ?g * ?m\<bar> = \<bar>?t / ?u - ?f / ?g\<bar> * \<bar>?m\<bar>"
    by (simp only: left_diff_distrib [symmetric] abs_mult)
  also have "\<dots> \<le> (?f / ?g) / 5000 * \<bar>?m\<bar>"
    using close by (rule mult_right_mono) simp
  also have "\<dots> = \<bar>?f / ?g * ?m\<bar> / 5000"
  proof -
    have "\<bar>?f / ?g * ?m\<bar> = ?f / ?g * \<bar>?m\<bar>"
      using pos by (simp only: abs_mult abs_of_nonneg)
    then show ?thesis by simp
  qed
  finally have c1: "\<bar>?t / ?u * ?m - ?f / ?g * ?m\<bar> \<le> \<bar>?f / ?g * ?m\<bar> / 5000" .
  have c2: "\<bar>midi_note_to_frequency_rt note - ?f\<bar> \<le> 1 / 2000"
    using n(1) assms(1) by (simp add: midi_note_to_frequency_rt_def)
  have u0: "?u \<noteq> 0" using r by linarith
  have g0: "?g \<noteq> 0" using r(2) by linarith
  have c3: "note = ?r \<longrightarrow> ?t / ?u * ?m = ?m \<and> ?f / ?g * ?m = ?m"
    using u0 g0 by simp
  from c1 c2 c3 show ?thesis unfolding rt co by blast
qed

theorem table_speed_close_witness:
  "\<bar>playback_speed (voice_trigger_rt (voice_init 1 48000) (Some example_sample_a) 61 100
                      (Some example_envelope))
     - playback_speed (voice_trigger (voice_init 1 48000) (Some example_sample_a) 61 100
                         (Some example_envelope))\<bar>
   \<le> \<bar>playback_speed (voice_trigger (voice_init 1 48000) (Some example_sample_a) 61 100
                         (Some example_envelope))\<bar> / 5000
   \<and> playback_speed (voice_trigger_rt (voice_init 1 48000) (Some example_sample_a) 60 100
                       (Some example_envelope)) = 1
   \<and> playback_speed (voice_trigger (voice_init 1 48000) (Some example_sample_a) 60 100
                       (Some example_envelope)) = 1"
proof -
  have r: "root_note (meta example_sample_a) = 60"
    by (simp add: example_sample_a_def example_meta_def)
  have a: "(61::nat) < 128" "(60::nat) < 128" "root_note (meta example_sample_a) < 128"
    by (simp_all add: r)
  have m: "pitch_bend_multiplier (voice_init 1 48000) = 1"
    by (simp add: voice_init_def)
  from table_speed_close [OF a(1) a(3), of "voice_init 1 48000" 100 example_envelope]
       table_speed_close [OF a(2) a(3), of "voice_init 1 48000" 100 example_envelope]
  show ?thesis by (simp add: r voice_init_def)
qed

section \<open>Properties of voice rendering\<close>

lemma voice_loop_wrap:
  assumes "real (num_frames s) \<le> position"
    and "loop_enabled (meta s)" "loop_start (meta s) < loop_end (meta s)"
  shows "voice_loop envp s speed gain st (Suc k) i v out position
           = voice_loop envp s speed gain st (Suc k) i v out (real (loop_start (meta s)))"
  using assms by simp

lemma voice_loop_wrap_position:
  assumes "real (num_frames s) \<le> position"
    and "loop_enabled (meta s)" "loop_start (meta s) < loop_end (meta s)"
    and "voice_loop envp s speed gain st (Suc 0) i v out position = Some (v', out', p')"
  shows "p' = real (loop_start (meta s)) + speed"
  using assms
  by (auto simp: split_beta Let_def split: if_splits Option.bind_splits)

lemma voice_loop_stop:
  assumes "real (num_frames s) \<le> position"
    and "\<not> (loop_enabled (meta s) \<and> loop_start (meta s) < loop_end (meta s))"
  shows "voice_loop envp s speed gain st (Suc k) i v out position
           = Some (v\<lparr>active := False\<rparr>, out, position)"
  using assms by simp

lemma voice_process_stop:
  assumes "real (num_frames s) \<le> playback_position v"
    and "\<not> (loop_enabled (meta s) \<and> loop_start (meta s) < loop_end (meta s))"
    and "active v" "v_sample v = Some s"
  shows "voice_process v out (Suc k) chans = Some (v\<lparr>active := False\<rparr>, out)"
    and "voice_process_rt v out (Suc k) chans = Some (v\<lparr>active := False\<rparr>, out)"
  using assms by (simp_all add: voice_process_def voice_process_rt_def)

lemma voice_process_inactive:
  assumes "\<not> active v"
  shows "voice_process v out n chans = Some (v, out)"
    and "voice_process_rt v out n chans = Some (v, out)"
  using assms by (simp_all add: voice_process_def voice_process_rt_def split: option.splits)

lemma voice_trigger_active:
  "active (voice_trigger v (Some s) nt vel (Some e))"
  "active (voice_trigger_rt v (Some s) nt vel (Some e))"
  by (simp_all add: voice_trigger_def voice_trigger_rt_def Let_def)

lemma example_voice_fields:
  "active example_voice" "v_sample example_voice = Some example_sample_a"
  "num_frames example_sample_a = 4" "num_frames example_sample_loop = 4"
  "\<not> loop_enabled (meta example_sample_a)"
  "loop_enabled (meta example_sample_loop)"
  "loop_start (meta example_sample_loop) = 1" "loop_end (meta example_sample_loop) = 3"
  by (simp_all add: example_voice_def voice_trigger_def Let_def example_sample_a_def
        example_sample_loop_def example_meta_def)

lemma interpolate_integer:
  assumes "i < num_frames smp"
    and "(if s_channels smp = 1 then num_frames smp else 2 * num_frames smp) \<le> length (data smp)"
    and "num_frames smp < 2 ^ 64"
  shows "interpolate smp (real i) = Some (data smp ! (if s_channels smp = 1 then i else i * 2))"
proof -
  have "i < 2 ^ 64" using assms(1,3) by (rule less_trans)
  then have "real i < 2 ^ 64" by (metis of_nat_less_iff of_nat_numeral of_nat_power)
  then have ts: "to_size_t (real i) = Some i" by (simp add: to_size_t_def)
  show ?thesis
  proof (cases "s_channels smp = 1")
    case True
    then show ?thesis
      using assms ts by (simp add: interpolate_def read_at_def Let_def)
  next
    case False
    then have "i * 2 < length (data smp)"
      "Suc i < num_frames smp \<Longrightarrow> Suc i * 2 < length (data smp)"
      using assms(1,2) by simp_all
    then show ?thesis
      using False ts by (simp add: interpolate_def read_at_def Let_def)
  qed
qed

lemma voice_loop_step:
  assumes "\<not> (real (num_frames s) \<le> pos
              \<and> \<not> (loop_enabled (meta s) \<and> loop_start (meta s) < loop_end (meta s)))"
  shows "voice_loop envp s sp g st (Suc k) i u out pos =
     (case interpolate s (if real (num_frames s) \<le> pos then real (loop_start (meta s))
                          else pos) of
        None \<Rightarrow> None
      | Some x \<Rightarrow>
          (case mix out i st (x * fst (envp (v_envelope u)) * g) of
             None \<Rightarrow> None
           | Some o1 \<Rightarrow>
               if \<not> envelope_is_active (snd (envp (v_envelope u)))
               then Some (u\<lparr>v_envelope := snd (envp (v_envelope u)), active := False\<rparr>, o1,
                          (if real (num_frames s) \<le> pos then real (loop_start (meta s))
                           else pos) + sp)
               else voice_loop envp s sp g st k (Suc i)
                      (u\<lparr>v_envelope := snd (envp (v_envelope u))\<rparr>) o1
                      ((if real (num_frames s) \<le> pos then real (loop_start (meta s))
                        else pos) + sp)))"
proof -
  have "voice_loop envp s sp g st (Suc k) i u out pos =
      do {
        let position1 = (if pos \<ge> real (num_frames s)
                         then real (loop_start (meta s)) else pos);
        sample_value \<leftarrow> interpolate s position1;
        let (env_level, env') = envp (v_envelope u);
        let final_value = sample_value * env_level * g;
        output' \<leftarrow> mix out i st final_value;
        let position2 = position1 + sp;
        let v' = u\<lparr>v_envelope := env'\<rparr>;
        if \<not> envelope_is_active env'
        then Some (v'\<lparr>active := False\<rparr>, output', position2)
        else voice_loop envp s sp g st k (Suc i) v' output' position2
      }"
    by (subst voice_loop.simps) (rule if_not_P [OF assms])
  then show ?thesis
    by (simp add: Let_def split_beta split: option.splits Option.bind_splits)
qed

lemma voice_loop_position_field:
  "voice_loop envp s sp g st k i (v\<lparr>playback_position := q\<rparr>) out pos
     = map_option (\<lambda>(v', o', p). (v'\<lparr>playback_position := q\<rparr>, o', p))
         (voice_loop envp s sp g st k i v out pos)"
proof (induction k arbitrary: i v out pos)
  case 0
  then show ?case by simp
next
  case (Suc k)
  show ?case
  proof (cases "real (num_frames s) \<le> pos
                \<and> \<not> (loop_enabled (meta s) \<and> loop_start (meta s) < loop_end (meta s))")
    case True
    then show ?thesis by auto
  next
    case False
    have sw: "v\<lparr>playback_position := q, v_envelope := e\<rparr>
              = (v\<lparr>v_envelope := e\<rparr>)\<lparr>playback_position := q\<rparr>" for e
      by simp
    show ?thesis
      unfolding voice_loop_step [OF False]
      by (simp add: sw Suc.IH split: option.splits)
  qed
qed

lemma voice_process_loop:
  assumes "active u" "v_sample u = Some s"
  shows "voice_process u out n chans
           = map_option (\<lambda>r. ((fst r)\<lparr>playback_position := snd (snd r)\<rparr>, fst (snd r)))
               (voice_loop envelope_process s (playback_speed u) (real (v_velocity u) / 127)
                  (chans \<noteq> 1) n 0 u out (playback_position u))"
    and "voice_process_rt u out n chans
           = map_option (\<lambda>r. ((fst r)\<lparr>playback_position := snd (snd r)\<rparr>, fst (snd r)))
               (voice_loop envelope_process_rt s (playback_speed u) (velocity_gain u)
                  (chans = 2) n 0 u out (playback_position u))"
proof -
  show "voice_process u out n chans
           = map_option (\<lambda>r. ((fst r)\<lparr>playback_position := snd (snd r)\<rparr>, fst (snd r)))
               (voice_loop envelope_process s (playback_speed u) (real (v_velocity u) / 127)
                  (chans \<noteq> 1) n 0 u out (playback_position u))"
    using assms
    by (cases "voice_loop envelope_process s (playback_speed u) (real (v_velocity u) / 127)
                  (chans \<noteq> 1) n 0 u out (playback_position u)")
       (simp_all add: voice_process_def split_beta)
  show "voice_process_rt u out n chans
           = map_option (\<lambda>r. ((fst r)\<lparr>playback_position := snd (snd r)\<rparr>, fst (snd r)))
               (voice_loop envelope_process_rt s (playback_speed u) (velocity_gain u)
                  (chans = 2) n 0 u out (playback_position u))"
    using assms
    by (cases "voice_loop envelope_process_rt s (playback_speed u) (velocity_gain u)
                  (chans = 2) n 0 u out (playback_position u)")
       (simp_all add: voice_process_rt_def split_beta)
qed

lemma voice_process_wrap:
  assumes "real (num_frames s) \<le> playback_position v"
    and "loop_enabled (meta s)" "loop_start (meta s) < loop_end (meta s)"
    and "active v" "v_sample v = Some s"
  shows "voice_process v out (Suc k) chans
           = voice_process (v\<lparr>playback_position := real (loop_start (meta s))\<rparr>) out (Suc k)
               chans"
    and "voice_process_rt v out (Suc k) chans
           = voice_process_rt (v\<lparr>playback_position := real (loop_start (meta s))\<rparr>) out
               (Suc k) chans"
proof -
  let ?ls = "real (loop_start (meta s))"
  let ?u = "v\<lparr>playback_position := ?ls\<rparr>"
  let ?fin = "map_option (\<lambda>r :: voice \<times> real list \<times> real.
                 ((fst r)\<lparr>playback_position := snd (snd r)\<rparr>, fst (snd r)))"
  have w: "voice_loop envp s sp g st (Suc k) 0 v out (playback_position v)
             = voice_loop envp s sp g st (Suc k) 0 v out ?ls" for envp sp g st
    using assms(1,2,3) by (rule voice_loop_wrap)
  have core: "?fin (voice_loop envp s sp g st (Suc k) 0 ?u out ?ls)
                = ?fin (voice_loop envp s sp g st (Suc k) 0 v out ?ls)" for envp sp g st
    by (cases "voice_loop envp s sp g st (Suc k) 0 v out ?ls")
       (auto simp add: voice_loop_position_field simp del: voice_loop.simps)
  have u: "active ?u" "v_sample ?u = Some s" "playback_speed ?u = playback_speed v"
    "v_velocity ?u = v_velocity v" "velocity_gain ?u = velocity_gain v"
    "playback_position ?u = ?ls"
    using assms(4,5) by simp_all
  show "voice_process v out (Suc k) chans = voice_process ?u out (Suc k) chans"
    unfolding voice_process_loop(1) [OF assms(4,5)] voice_process_loop(1) [OF u(1,2)] u w core
    by (rule refl)
  show "voice_process_rt v out (Suc k) chans = voice_process_rt ?u out (Suc k) chans"
    unfolding voice_process_loop(2) [OF assms(4,5)] voice_process_loop(2) [OF u(1,2)] u w core
    by (rule refl)
qed

lemma voice_process_wrap_frame:
  assumes "real (num_frames s) \<le> playback_position v"
    and "loop_enabled (meta s)" "loop_start (meta s) < loop_end (meta s)"
    and "active v" "v_sample v = Some s"
    and "interpolate s (real (loop_start (meta s))) = Some x"
  shows "mix out 0 (chans \<noteq> 1)
             (x * fst (envelope_process (v_envelope v)) * (real (v_velocity v) / 127))
           = Some out' \<Longrightarrow>
         voice_process v out (Suc 0) chans
           = Some (v\<lparr>v_envelope := snd (envelope_process (v_envelope v)),
                    active := envelope_is_active (snd (envelope_process (v_envelope v))),
                    playback_position := real (loop_start (meta s)) + playback_speed v\<rparr>,
                   out')"
    and "mix out 0 (chans = 2)
             (x * fst (envelope_process_rt (v_envelope v)) * velocity_gain v)
           = Some out' \<Longrightarrow>
         voice_process_rt v out (Suc 0) chans
           = Some (v\<lparr>v_envelope := snd (envelope_process_rt (v_envelope v)),
                    active := envelope_is_active (snd (envelope_process_rt (v_envelope v))),
                    playback_position := real (loop_start (meta s)) + playback_speed v\<rparr>,
                   out')"
proof -
  have a: "u\<lparr>active := True\<rparr> = u" if "active u" for u :: voice
    using that by (cases u) simp
  have b: "v\<lparr>v_envelope := e, active := True, playback_position := p\<rparr>
           = v\<lparr>v_envelope := e, playback_position := p\<rparr>" for e p
    using a [of "v\<lparr>v_envelope := e, playback_position := p\<rparr>"] assms(4) by simp
  show "mix out 0 (chans \<noteq> 1)
             (x * fst (envelope_process (v_envelope v)) * (real (v_velocity v) / 127))
           = Some out' \<Longrightarrow>
         voice_process v out (Suc 0) chans
           = Some (v\<lparr>v_envelope := snd (envelope_process (v_envelope v)),
                    active := envelope_is_active (snd (envelope_process (v_envelope v))),
                    playback_position := real (loop_start (meta s)) + playback_speed v\<rparr>,
                   out')"
    using assms by (simp add: voice_process_def split_beta Let_def b)
  show "mix out 0 (chans = 2)
             (x * fst (envelope_process_rt (v_envelope v)) * velocity_gain v)
           = Some out' \<Longrightarrow>
         voice_process_rt v out (Suc 0) chans
           = Some (v\<lparr>v_envelope := snd (envelope_process_rt (v_envelope v)),
                    active := envelope_is_active (snd (envelope_process_rt (v_envelope v))),
                    playback_position := real (loop_start (meta s)) + playback_speed v\<rparr>,
                   out')"
    using assms by (simp add: voice_process_rt_def split_beta Let_def b)
qed

lemma example_held_envelope_step:
  "envelope_process example_held_envelope = (1/2, example_held_envelope)"
  "envelope_process_rt example_held_envelope = (1/2, example_held_envelope)"
  "envelope_is_active example_held_envelope"
  by (simp_all add: example_held_envelope_def envelope_process_def envelope_process_rt_def
        envelope_trigger_def envelope_init_rt_def example_envelope_def clamp_level_def
        envelope_is_active_def Let_def)

lemma example_sample_loop_fields:
  "num_frames example_sample_loop = 4" "s_channels example_sample_loop = 1"
  "data example_sample_loop = [1/2, 1, 1/4, -1]"
  "loop_enabled (meta example_sample_loop)"
  "loop_start (meta example_sample_loop) = 1" "loop_end (meta example_sample_loop) = 3"
  by (simp_all add: example_sample_loop_def example_sample_a_def example_meta_def)

lemma example_voice_loop_fields:
  "active example_voice_loop" "v_sample example_voice_loop = Some example_sample_loop"
  "playback_position example_voice_loop = 4" "playback_speed example_voice_loop = 1"
  "v_velocity example_voice_loop = 127" "v_envelope example_voice_loop = example_held_envelope"
  "active example_voice_loop_rt" "v_sample example_voice_loop_rt = Some example_sample_loop"
  "playback_position example_voice_loop_rt = 4" "playback_speed example_voice_loop_rt = 1"
  "velocity_gain example_voice_loop_rt = 1"
  "v_envelope example_voice_loop_rt = example_held_envelope"
proof -
  have f: "midi_note_to_frequency 60 \<noteq> 0" "midi_note_to_frequency_rt 60 \<noteq> 0"
    using midi_note_to_frequency_pos [of 60] table_pos [of 60]
    by (simp_all add: midi_note_to_frequency_rt_def)
  have r: "root_note (meta example_sample_loop) = 60"
    by (simp add: example_sample_loop_def example_meta_def)
  have b: "pitch_bend_multiplier (voice_init k sr) = 1" for k sr
    by (simp add: voice_init_def zero_voice_def)
  show "active example_voice_loop" "v_sample example_voice_loop = Some example_sample_loop"
    "playback_position example_voice_loop = 4" "playback_speed example_voice_loop = 1"
    "v_velocity example_voice_loop = 127" "v_envelope example_voice_loop = example_held_envelope"
    using f(1) by (simp_all add: example_voice_loop_def voice_trigger_def Let_def r b)
  show "active example_voice_loop_rt" "v_sample example_voice_loop_rt = Some example_sample_loop"
    "playback_position example_voice_loop_rt = 4" "playback_speed example_voice_loop_rt = 1"
    "velocity_gain example_voice_loop_rt = 1"
    "v_envelope example_voice_loop_rt = example_held_envelope"
    using f(2) by (simp_all add: example_voice_loop_rt_def voice_trigger_rt_def Let_def r b)
qed

lemma example_interpolate:
  "interpolate example_sample_loop 1 = Some 1"
  "interpolate example_sample_loop 2 = Some (1/4)"
  "interpolate example_sample_loop 3 = Some (-1)"
  using interpolate_integer [of 1 example_sample_loop]
    interpolate_integer [of 2 example_sample_loop]
    interpolate_integer [of 3 example_sample_loop]
  by (simp_all add: example_sample_loop_fields)

lemma voice_envelope_refresh:
  fixes u :: voice
  shows "v_envelope u = e \<Longrightarrow> u\<lparr>v_envelope := e\<rparr> = u"
  by (cases u) simp

text \<open>
  Claim C4. At a frame of \<open>voice_process\<close> (either build) where the position has reached
  or passed the sample's frame count:
  \<^item> if looping is enabled and \<open>loop_end > loop_start\<close>, the frame runs as it does from
    position \<open>loop_start\<close>, at any frame of the loop; a call of \<open>voice_process\<close> entered
    at such a position is the call entered at \<open>loop_start\<close>, and a call of one frame mixes
    the sample read at \<open>loop_start\<close>, scaled by envelope and velocity, into frame 0 and
    leaves the position at \<open>loop_start + speed\<close>;
  \<^item> otherwise the loop ends there with the voice inactive and the output buffer as it
    is, so nothing more is mixed in that call.

  The loop \<open>voice_loop\<close> is the loop of \<open>voice_process\<close>: the call runs it from frame 0 on
  the voice's position and stores the position it ends with. A call on an inactive
  voice returns the voice and the buffer unchanged, in any later call, and
  \<open>voice_trigger\<close> makes the voice active again.
\<close>

theorem voice_end_of_sample:
  assumes "real (num_frames s) \<le> position"
  shows "(loop_enabled (meta s) \<and> loop_start (meta s) < loop_end (meta s) \<longrightarrow>
            voice_loop envp s speed gain st (Suc k) i v out position
              = voice_loop envp s speed gain st (Suc k) i v out (real (loop_start (meta s)))
            \<and> (\<forall>v' out' p'.
                  voice_loop envp s speed gain st (Suc 0) i v out position = Some (v', out', p')
                  \<longrightarrow> p' = real (loop_start (meta s)) + speed)
            \<and> (active v \<and> v_sample v = Some s \<and> playback_position v = position \<longrightarrow>
                 voice_process v out (Suc k) chans
                   = voice_process (v\<lparr>playback_position := real (loop_start (meta s))\<rparr>)
                       out (Suc k) chans
                 \<and> voice_process_rt v out (Suc k) chans
                   = voice_process_rt (v\<lparr>playback_position := real (loop_start (meta s))\<rparr>)
                       out (Suc k) chans
                 \<and> (\<forall>x out'.
                       interpolate s (real (loop_start (meta s))) = Some x
                       \<and> mix out 0 (chans \<noteq> 1)
                           (x * fst (envelope_process (v_envelope v))
                              * (real (v_velocity v) / 127)) = Some out'
                       \<longrightarrow> voice_process v out (Suc 0) chans
                             = Some (v\<lparr>v_envelope := snd (envelope_process (v_envelope v)),
                                      active := envelope_is_active
                                                  (snd (envelope_process (v_envelope v))),
                                      playback_position :=
                                        real (loop_start (meta s)) + playback_speed v\<rparr>,
                                     out'))
                 \<and> (\<forall>x out'.
                       interpolate s (real (loop_start (meta s))) = Some x
                       \<and> mix out 0 (chans = 2)
                           (x * fst (envelope_process_rt (v_envelope v)) * velocity_gain v)
                           = Some out'
                       \<longrightarrow> voice_process_rt v out (Suc 0) chans
                             = Some (v\<lparr>v_envelope := snd (envelope_process_rt (v_envelope v)),
                                      active := envelope_is_active
                                                  (snd (envelope_process_rt (v_envelope v))),
                                      playback_position :=
                                        real (loop_start (meta s)) + playback_speed v\<rparr>,
                                     out'))))
       \<and> (\<not> (loop_enabled (meta s) \<and> loop_start (meta s) < loop_end (meta s)) \<longrightarrow>
            voice_loop envp s speed gain st (Suc k) i v out position
              = Some (v\<lparr>active := False\<rparr>, out, position)
            \<and> (active v \<and> v_sample v = Some s \<and> playback_position v = position \<longrightarrow>
                 voice_process v out (Suc k) chans = Some (v\<lparr>active := False\<rparr>, out)
                 \<and> voice_process_rt v out (Suc k) chans = Some (v\<lparr>active := False\<rparr>, out)))
       \<and> (active u \<and> v_sample u = Some s \<longrightarrow>
            voice_process u out n chans
              = map_option (\<lambda>r. ((fst r)\<lparr>playback_position := snd (snd r)\<rparr>, fst (snd r)))
                  (voice_loop envelope_process s (playback_speed u) (real (v_velocity u) / 127)
                     (chans \<noteq> 1) n 0 u out (playback_position u))
            \<and> voice_process_rt u out n chans
              = map_option (\<lambda>r. ((fst r)\<lparr>playback_position := snd (snd r)\<rparr>, fst (snd r)))
                  (voice_loop envelope_process_rt s (playback_speed u) (velocity_gain u)
                     (chans = 2) n 0 u out (playback_position u)))
       \<and> (\<not> active w \<longrightarrow>
            voice_process w out n chans = Some (w, out)
            \<and> voice_process_rt w out n chans = Some (w, out))
       \<and> active (voice_trigger w (Some s) nt vel (Some e))
       \<and> active (voice_trigger_rt w (Some s) nt vel (Some e))"
proof -
  let ?valid = "loop_enabled (meta s) \<and> loop_start (meta s) < loop_end (meta s)"
  let ?ls = "real (loop_start (meta s))"
  have a1: "?valid \<longrightarrow>
      voice_loop envp s speed gain st (Suc k) i v out position
        = voice_loop envp s speed gain st (Suc k) i v out ?ls"
    using assms voice_loop_wrap [of s position envp speed gain st k i v out] by blast
  have a2: "?valid \<longrightarrow> (\<forall>v' out' p'.
      voice_loop envp s speed gain st (Suc 0) i v out position = Some (v', out', p')
      \<longrightarrow> p' = ?ls + speed)"
    using assms voice_loop_wrap_position [of s position envp speed gain st i v out] by blast
  have a3: "?valid \<longrightarrow> active v \<and> v_sample v = Some s \<and> playback_position v = position \<longrightarrow>
      voice_process v out (Suc k) chans
        = voice_process (v\<lparr>playback_position := ?ls\<rparr>) out (Suc k) chans
      \<and> voice_process_rt v out (Suc k) chans
        = voice_process_rt (v\<lparr>playback_position := ?ls\<rparr>) out (Suc k) chans"
    using assms voice_process_wrap [of s v out k chans] by blast
  have a4: "?valid \<longrightarrow> active v \<and> v_sample v = Some s \<and> playback_position v = position \<longrightarrow>
      (\<forall>x out'. interpolate s ?ls = Some x
          \<and> mix out 0 (chans \<noteq> 1)
              (x * fst (envelope_process (v_envelope v)) * (real (v_velocity v) / 127))
              = Some out'
          \<longrightarrow> voice_process v out (Suc 0) chans
                = Some (v\<lparr>v_envelope := snd (envelope_process (v_envelope v)),
                         active := envelope_is_active (snd (envelope_process (v_envelope v))),
                         playback_position := ?ls + playback_speed v\<rparr>, out'))"
    using assms voice_process_wrap_frame(1) [of s v _ out chans] by blast
  have a5: "?valid \<longrightarrow> active v \<and> v_sample v = Some s \<and> playback_position v = position \<longrightarrow>
      (\<forall>x out'. interpolate s ?ls = Some x
          \<and> mix out 0 (chans = 2)
              (x * fst (envelope_process_rt (v_envelope v)) * velocity_gain v) = Some out'
          \<longrightarrow> voice_process_rt v out (Suc 0) chans
                = Some (v\<lparr>v_envelope := snd (envelope_process_rt (v_envelope v)),
                         active := envelope_is_active
                                     (snd (envelope_process_rt (v_envelope v))),
                         playback_position := ?ls + playback_speed v\<rparr>, out'))"
    using assms voice_process_wrap_frame(2) [of s v _ out chans] by blast
  have b1: "\<not> ?valid \<longrightarrow>
      voice_loop envp s speed gain st (Suc k) i v out position
        = Some (v\<lparr>active := False\<rparr>, out, position)"
    using assms voice_loop_stop [of s position envp speed gain st k i v out] by blast
  have b2: "\<not> ?valid \<longrightarrow> active v \<and> v_sample v = Some s \<and> playback_position v = position \<longrightarrow>
      voice_process v out (Suc k) chans = Some (v\<lparr>active := False\<rparr>, out)
      \<and> voice_process_rt v out (Suc k) chans = Some (v\<lparr>active := False\<rparr>, out)"
    using assms voice_process_stop [of s v out k chans] by blast
  have c: "active u \<and> v_sample u = Some s \<longrightarrow>
      voice_process u out n chans
        = map_option (\<lambda>r. ((fst r)\<lparr>playback_position := snd (snd r)\<rparr>, fst (snd r)))
            (voice_loop envelope_process s (playback_speed u) (real (v_velocity u) / 127)
               (chans \<noteq> 1) n 0 u out (playback_position u))
      \<and> voice_process_rt u out n chans
        = map_option (\<lambda>r. ((fst r)\<lparr>playback_position := snd (snd r)\<rparr>, fst (snd r)))
            (voice_loop envelope_process_rt s (playback_speed u) (velocity_gain u)
               (chans = 2) n 0 u out (playback_position u))"
    using voice_process_loop [of u s out n chans] by blast
  have d: "\<not> active w \<longrightarrow>
      voice_process w out n chans = Some (w, out)
      \<and> voice_process_rt w out n chans = Some (w, out)"
    using voice_process_inactive [of w out n chans] by blast
  note t = voice_trigger_active [of w s nt vel e]
  from a1 a2 a3 a4 a5 have a: "?valid \<longrightarrow>
      voice_loop envp s speed gain st (Suc k) i v out position
        = voice_loop envp s speed gain st (Suc k) i v out ?ls
      \<and> (\<forall>v' out' p'.
            voice_loop envp s speed gain st (Suc 0) i v out position = Some (v', out', p')
            \<longrightarrow> p' = ?ls + speed)
      \<and> (active v \<and> v_sample v = Some s \<and> playback_position v = position \<longrightarrow>
           voice_process v out (Suc k) chans
             = voice_process (v\<lparr>playback_position := ?ls\<rparr>) out (Suc k) chans
           \<and> voice_process_rt v out (Suc k) chans
             = voice_process_rt (v\<lparr>playback_position := ?ls\<rparr>) out (Suc k) chans
           \<and> (\<forall>x out'. interpolate s ?ls = Some x
                 \<and> mix out 0 (chans \<noteq> 1)
                     (x * fst (envelope_process (v_envelope v)) * (real (v_velocity v) / 127))
                     = Some out'
                 \<longrightarrow> voice_process v out (Suc 0) chans
                       = Some (v\<lparr>v_envelope := snd (envelope_process (v_envelope v)),
                                active := envelope_is_active
                                            (snd (envelope_process (v_envelope v))),
                                playback_position := ?ls + playback_speed v\<rparr>, out'))
           \<and> (\<forall>x out'. interpolate s ?ls = Some x
                 \<and> mix out 0 (chans = 2)
                     (x * fst (envelope_process_rt (v_envelope v)) * velocity_gain v)
                     = Some out'
                 \<longrightarrow> voice_process_rt v out (Suc 0) chans
                       = Some (v\<lparr>v_envelope := snd (envelope_process_rt (v_envelope v)),
                                active := envelope_is_active
                                            (snd (envelope_process_rt (v_envelope v))),
                                playback_position := ?ls + playback_speed v\<rparr>, out')))"
    by blast
  from b1 b2 have b: "\<not> ?valid \<longrightarrow>
      voice_loop envp s speed gain st (Suc k) i v out position
        = Some (v\<lparr>active := False\<rparr>, out, position)
      \<and> (active v \<and> v_sample v = Some s \<and> playback_position v = position \<longrightarrow>
           voice_process v out (Suc k) chans = Some (v\<lparr>active := False\<rparr>, out)
           \<and> voice_process_rt v out (Suc k) chans = Some (v\<lparr>active := False\<rparr>, out))"
    by blast
  show ?thesis
    by (rule conjI [OF a conjI [OF b conjI [OF c conjI [OF d conjI [OF t]]]]])
qed

theorem voice_end_of_sample_witness:
  "voice_loop envelope_process example_sample_loop 1 1 False (Suc (Suc 0)) 0 example_voice_loop
       [3, 5] 4
     = voice_loop envelope_process example_sample_loop 1 1 False (Suc (Suc 0)) 0
         example_voice_loop [3, 5] 1
   \<and> voice_process example_voice_loop [3, 5] (Suc 0) 1
       = Some (example_voice_loop\<lparr>playback_position := 2\<rparr>, [7/2, 5])
   \<and> voice_process_rt example_voice_loop_rt [3, 5] (Suc 0) 1
       = Some (example_voice_loop_rt\<lparr>playback_position := 2\<rparr>, [7/2, 5])
   \<and> voice_process example_voice_loop [3, 5] (Suc (Suc 0)) 1
       = Some (example_voice_loop\<lparr>playback_position := 3\<rparr>, [7/2, 41/8])
   \<and> voice_process_rt example_voice_loop_rt [3, 5] (Suc (Suc 0)) 1
       = Some (example_voice_loop_rt\<lparr>playback_position := 3\<rparr>, [7/2, 41/8])
   \<and> voice_process (example_voice_loop\<lparr>playback_position := 3\<rparr>) [3, 5, 0]
         (Suc (Suc (Suc 0))) 1
       = Some (example_voice_loop\<lparr>playback_position := 3\<rparr>, [5/2, 11/2, 1/8])
   \<and> voice_process_rt (example_voice_loop_rt\<lparr>playback_position := 3\<rparr>) [3, 5, 0]
         (Suc (Suc (Suc 0))) 1
       = Some (example_voice_loop_rt\<lparr>playback_position := 3\<rparr>, [5/2, 11/2, 1/8])
   \<and> voice_process (example_voice\<lparr>playback_position := 4\<rparr>) [3, 5] (Suc (Suc 0)) 1
       = Some (example_voice\<lparr>playback_position := 4, active := False\<rparr>, [3, 5])
   \<and> voice_process_rt (example_voice\<lparr>playback_position := 4\<rparr>) [3, 5] (Suc (Suc 0)) 1
       = Some (example_voice\<lparr>playback_position := 4, active := False\<rparr>, [3, 5])
   \<and> voice_process (example_voice\<lparr>active := False\<rparr>) [3, 5] 2 1
       = Some (example_voice\<lparr>active := False\<rparr>, [3, 5])"
proof -
  let ?s = example_sample_loop
  let ?v = example_voice_loop
  let ?r = example_voice_loop_rt
  note ev = example_sample_loop_fields example_voice_loop_fields example_interpolate
    example_held_envelope_step mix_def add_at_def voice_envelope_refresh
  have h: "real (num_frames ?s) \<le> 4" "real (num_frames example_sample_a) \<le> 4"
    by (simp_all add: example_voice_fields)
  note t1 = voice_end_of_sample [OF h(1), where envp = envelope_process and speed = 1
      and gain = 1 and st = False and k = "Suc 0" and i = 0 and v = ?v and out = "[3, 5]"
      and chans = 1 and u = "?v\<lparr>playback_position := 1\<rparr>" and n = "Suc (Suc 0)"
      and w = "example_voice\<lparr>active := False\<rparr>" and nt = 60 and vel = 100
      and e = example_envelope]
  note t2 = voice_end_of_sample [OF h(1), where envp = envelope_process_rt and speed = 1
      and gain = 1 and st = False and k = "Suc 0" and i = 0 and v = ?r and out = "[3, 5]"
      and chans = 1 and u = "?r\<lparr>playback_position := 1\<rparr>" and n = "Suc (Suc 0)"
      and w = "example_voice\<lparr>active := False\<rparr>" and nt = 60 and vel = 100
      and e = example_envelope]
  note t3 = voice_end_of_sample [OF h(1), where envp = envelope_process and speed = 1
      and gain = 1 and st = False and k = "Suc 0" and i = 0 and v = ?v and out = "[3, 5, 0]"
      and chans = 1 and u = "?v\<lparr>playback_position := 3\<rparr>" and n = "Suc (Suc (Suc 0))"
      and w = "example_voice\<lparr>active := False\<rparr>" and nt = 60 and vel = 100
      and e = example_envelope]
  note t4 = voice_end_of_sample [OF h(1), where envp = envelope_process_rt and speed = 1
      and gain = 1 and st = False and k = "Suc 0" and i = 0 and v = ?r and out = "[3, 5, 0]"
      and chans = 1 and u = "?r\<lparr>playback_position := 3\<rparr>" and n = "Suc (Suc (Suc 0))"
      and w = "example_voice\<lparr>active := False\<rparr>" and nt = 60 and vel = 100
      and e = example_envelope]
  note t5 = voice_end_of_sample [OF h(2), where envp = envelope_process and speed = 1
      and gain = 1 and st = False and k = "Suc 0" and i = 0
      and v = "example_voice\<lparr>playback_position := 4\<rparr>" and out = "[3, 5]"
      and chans = 1 and u = example_voice and n = 2
      and w = "example_voice\<lparr>active := False\<rparr>" and nt = 60 and vel = 100
      and e = example_envelope]
  have w1: "voice_loop envelope_process ?s 1 1 False (Suc (Suc 0)) 0 ?v [3, 5] 4
            = voice_loop envelope_process ?s 1 1 False (Suc (Suc 0)) 0 ?v [3, 5] 1"
    using t1 by (simp add: example_sample_loop_fields)
  have w2: "voice_process ?v [3, 5] (Suc 0) 1
            = Some (?v\<lparr>playback_position := 2\<rparr>, [7/2, 5])"
    using t1 by (simp add: ev)
  have w3: "voice_process_rt ?r [3, 5] (Suc 0) 1
            = Some (?r\<lparr>playback_position := 2\<rparr>, [7/2, 5])"
    using t2 by (simp add: ev)
  have w4: "voice_process ?v [3, 5] (Suc (Suc 0)) 1
            = Some (?v\<lparr>playback_position := 3\<rparr>, [7/2, 41/8])"
    using t1 by (simp add: ev)
  have w5: "voice_process_rt ?r [3, 5] (Suc (Suc 0)) 1
            = Some (?r\<lparr>playback_position := 3\<rparr>, [7/2, 41/8])"
    using t2 by (simp add: ev)
  have w6: "voice_process (?v\<lparr>playback_position := 3\<rparr>) [3, 5, 0] (Suc (Suc (Suc 0))) 1
            = Some (?v\<lparr>playback_position := 3\<rparr>, [5/2, 11/2, 1/8])"
    using t3 by (simp add: ev)
  have w7: "voice_process_rt (?r\<lparr>playback_position := 3\<rparr>) [3, 5, 0] (Suc (Suc (Suc 0))) 1
            = Some (?r\<lparr>playback_position := 3\<rparr>, [5/2, 11/2, 1/8])"
    using t4 by (simp add: ev)
  have w8: "voice_process (example_voice\<lparr>playback_position := 4\<rparr>) [3, 5] (Suc (Suc 0)) 1
              = Some (example_voice\<lparr>playback_position := 4, active := False\<rparr>, [3, 5])"
    and w9: "voice_process_rt (example_voice\<lparr>playback_position := 4\<rparr>) [3, 5] (Suc (Suc 0)) 1
              = Some (example_voice\<lparr>playback_position := 4, active := False\<rparr>, [3, 5])"
    using t5 by (simp_all add: example_voice_fields)
  have w10: "voice_process (example_voice\<lparr>active := False\<rparr>) [3, 5] 2 1
              = Some (example_voice\<lparr>active := False\<rparr>, [3, 5])"
    using t5 by simp
  show ?thesis
    by (rule conjI [OF w1 conjI [OF w2 conjI [OF w3 conjI [OF w4 conjI [OF w5 conjI [OF w6
          conjI [OF w7 conjI [OF w8 conjI [OF w9 w10]]]]]]]]])
qed

section \<open>Properties of voice allocation\<close>

lemma pool_size_le: "pool_size s \<le> MS_MAX_VOICES"
  by (simp add: pool_size_def)

lemma find_available_voice_free:
  assumes "\<forall>j < k. active (voices s j)" "\<not> active (voices s k)" "k < pool_size s"
  shows "find_available_voice s = k"
proof -
  have "find (\<lambda>i. \<not> active (voices s i)) [0 ..< pool_size s] = Some k"
    unfolding find_Some_iff using assms by (intro exI [of _ k]) simp
  then show ?thesis by (simp add: find_available_voice_def)
qed

lemma find_available_voice_full:
  assumes "\<forall>j < pool_size s. active (voices s j)"
  shows "find_available_voice s = 0"
proof -
  have "find (\<lambda>i. \<not> active (voices s i)) [0 ..< pool_size s] = None"
    unfolding find_None_iff using assms by simp
  then show ?thesis by (simp add: find_available_voice_def)
qed

lemma filled_next:
  assumes "filled s notes" "length notes < pool_size s"
  shows "find_available_voice s = length notes"
  using assms pool_size_le [of s]
  by (intro find_available_voice_free) (simp_all add: filled_def)

lemma filled_full:
  assumes "filled s notes" "length notes = pool_size s"
  shows "find_available_voice s = 0"
  using assms by (intro find_available_voice_full) (simp add: filled_def)

lemma filled_place:
  assumes "filled s notes" "length notes < MS_MAX_VOICES" "active v" "v_note v = n"
  shows "filled (s\<lparr>voices := (voices s)(length notes := v)\<rparr>) (notes @ [n])"
  using assms by (auto simp: filled_def nth_append less_Suc_eq)

lemma filter_upt_less:
  "(\<And>j. j < N \<Longrightarrow> Q j \<longleftrightarrow> j < P) \<Longrightarrow> P \<le> N \<Longrightarrow> filter Q [0 ..< N] = [0 ..< P]"
proof (induction N)
  case 0
  then show ?case by simp
next
  case (Suc N)
  show ?case
  proof (cases "P = Suc N")
    case True
    have "filter Q [0 ..< N] = [0 ..< N]"
      using Suc.prems(1) True by (intro filter_True) simp
    with Suc.prems(1) [of N] True show ?thesis by simp
  next
    case False
    with Suc.prems have "P \<le> N" by simp
    with Suc.IH [OF _ this] Suc.prems(1) have "filter Q [0 ..< N] = [0 ..< P]" by simp
    with Suc.prems(1) [of N] \<open>P \<le> N\<close> show ?thesis by simp
  qed
qed

lemma filled_active_count:
  assumes "filled s notes" "length notes \<le> MS_MAX_VOICES"
  shows "active_count s = length notes"
proof -
  have "filter (\<lambda>j. active (voices s j)) [0 ..< MS_MAX_VOICES] = [0 ..< length notes]"
    using assms by (intro filter_upt_less) (auto simp: filled_def not_less)
  then show ?thesis by (simp add: active_count_def)
qed

lemma voice_trigger_fields:
  "active (voice_trigger v (Some smp) n vel (Some e))"
  "v_note (voice_trigger v (Some smp) n vel (Some e)) = n"
  "voice_id (voice_trigger v (Some smp) n vel (Some e)) = voice_id v"
  "active (voice_trigger_rt v (Some smp) n vel (Some e))"
  "v_note (voice_trigger_rt v (Some smp) n vel (Some e)) = n"
  "voice_id (voice_trigger_rt v (Some smp) n vel (Some e)) = voice_id v"
  by (simp_all add: voice_trigger_def voice_trigger_rt_def Let_def)

lemma ms_note_on_place:
  assumes "instruments h ip = Some inst" "sampler inst = Some sp" "samplers h sp = Some s"
    and "instrument_find_sample (Some inst) n v = Some smp"
  shows "ms_note_on h (Some ip) n v vid =
           Some (MS_SUCCESS,
                 h\<lparr>samplers := (samplers h)
                      (sp \<mapsto> s\<lparr>voices := (voices s)
                          (find_available_voice s :=
                             (voice_trigger (voices s (find_available_voice s)) (Some smp) n v
                                (Some (envelope inst)))\<lparr>v_instrument := Some ip\<rparr>)\<rparr>)\<rparr>,
                 map_option (\<lambda>c. voice_id (voices s (find_available_voice s))) vid)"
  using assms
  by (cases vid) (simp_all add: ms_note_on_def Let_def voice_trigger_fields)

lemma ms_note_on_all_fill:
  "instruments h ip = Some inst \<Longrightarrow> sampler inst = Some sp \<Longrightarrow> samplers h sp = Some s \<Longrightarrow>
   filled s ns \<Longrightarrow> length ns + length nvs \<le> pool_size s \<Longrightarrow>
   (\<forall>nv \<in> set nvs. instrument_find_sample (Some inst) (fst nv) (snd nv) \<noteq> None) \<Longrightarrow>
   \<exists>h' s'. ms_note_on_all h (Some ip) nvs = Some (replicate (length nvs) MS_SUCCESS, h')
          \<and> instruments h' = instruments h \<and> samplers h' sp = Some s'
          \<and> config s' = config s \<and> filled s' (ns @ map fst nvs)"
proof (induction nvs arbitrary: h s ns)
  case Nil
  then show ?case by simp
next
  case (Cons nv nvs)
  obtain n v where nv: "nv = (n, v)" by (cases nv)
  from Cons.prems(6) nv obtain smp where
    smp: "instrument_find_sample (Some inst) n v = Some smp"
    by auto
  let ?j = "find_available_voice s"
  let ?v = "(voice_trigger (voices s ?j) (Some smp) n v (Some (envelope inst)))
              \<lparr>v_instrument := Some ip\<rparr>"
  let ?s = "s\<lparr>voices := (voices s)(?j := ?v)\<rparr>"
  let ?h = "h\<lparr>samplers := (samplers h)(sp \<mapsto> ?s)\<rparr>"
  have step: "ms_note_on h (Some ip) n v None = Some (MS_SUCCESS, ?h, None)"
    using ms_note_on_place [OF Cons.prems(1-3) smp, of None] by simp
  have lt: "length ns < pool_size s" using Cons.prems(5) by simp
  have j: "?j = length ns" using Cons.prems(4) lt by (rule filled_next)
  have lt': "length ns < MS_MAX_VOICES" using lt pool_size_le [of s] by simp
  have f: "filled ?s (ns @ [n])"
    unfolding j using Cons.prems(4) lt' by (rule filled_place) (simp_all add: voice_trigger_fields)
  have 1: "instruments ?h ip = Some inst" using Cons.prems(1) by simp
  have 3: "samplers ?h sp = Some ?s" by simp
  have 5: "length (ns @ [n]) + length nvs \<le> pool_size ?s"
    using Cons.prems(5) by (simp add: pool_size_def)
  have 6: "\<forall>nv \<in> set nvs. instrument_find_sample (Some inst) (fst nv) (snd nv) \<noteq> None"
    using Cons.prems(6) by simp
  from Cons.IH [OF 1 Cons.prems(2) 3 f 5 6] obtain h' s' where
    "ms_note_on_all ?h (Some ip) nvs = Some (replicate (length nvs) MS_SUCCESS, h')"
    "instruments h' = instruments ?h" "samplers h' sp = Some s'"
    "config s' = config ?s" "filled s' ((ns @ [n]) @ map fst nvs)"
    by blast
  with step nv show ?case by simp
qed

lemma event_queue_update_simps:
  "find_available_voice (s\<lparr>event_queue := q\<rparr>) = find_available_voice s"
  "pool_size (s\<lparr>event_queue := q\<rparr>) = pool_size s"
  "filled (s\<lparr>event_queue := q\<rparr>) ns = filled s ns"
  by (simp_all add: find_available_voice_def pool_size_def filled_def)

lemma filled_steal:
  assumes "filled s ns" "0 < length ns" "active v" "v_note v = n"
  shows "filled (s\<lparr>voices := (voices s)(0 := v)\<rparr>) (ns[0 := n])"
  using assms by (auto simp: filled_def nth_list_update)

lemma process_event_place:
  assumes "instruments h ip = Some inst" "instrument_find_sample (Some inst) n v = Some smp"
  shows "process_event h s (note_on_event ip (n, v)) =
           Some (s\<lparr>voices := (voices s)
                   (find_available_voice s :=
                      (voice_trigger_rt (voices s (find_available_voice s)) (Some smp) n v
                         (Some (envelope inst)))\<lparr>v_instrument := Some ip\<rparr>)\<rparr>)"
  using assms by (simp add: process_event_def note_on_event_def Let_def)

lemma process_events_loop_empty:
  assumes "queue_wf (event_queue s)" "queue_contents (event_queue s) = []"
  shows "process_events_loop k h s = Some s"
  using rt_queue_pop_empty [OF assms] by (cases k) simp_all

lemma process_events_loop_add:
  "process_events_loop (a + b) h s
     = Option.bind (process_events_loop a h s) (process_events_loop b h)"
proof (induction a arbitrary: s)
  case 0
  then show ?case by simp
next
  case (Suc a)
  show ?case
  proof (cases "rt_queue_pop (event_queue s)")
    case (Pair r q)
    show ?thesis
    proof (cases r)
      case None
      with Pair have "process_events_loop b h s = Some s" by (cases b) simp_all
      with Pair None show ?thesis by simp
    next
      case (Some event)
      with Pair Suc.IH show ?thesis
        by (cases "process_event h (s\<lparr>event_queue := q\<rparr>) event") simp_all
    qed
  qed
qed

lemma process_events_loop_fill:
  "instruments h ip = Some inst \<Longrightarrow> queue_wf (event_queue s) \<Longrightarrow>
   queue_contents (event_queue s) = map (note_on_event ip) nvs @ rest \<Longrightarrow>
   filled s ns \<Longrightarrow> length ns + length nvs \<le> pool_size s \<Longrightarrow>
   (\<forall>nv \<in> set nvs. instrument_find_sample (Some inst) (fst nv) (snd nv) \<noteq> None) \<Longrightarrow>
   \<exists>s'. process_events_loop (length nvs) h s = Some s'
        \<and> config s' = config s \<and> filled s' (ns @ map fst nvs)
        \<and> queue_wf (event_queue s') \<and> queue_contents (event_queue s') = rest"
proof (induction nvs arbitrary: s ns)
  case Nil
  then show ?case by simp
next
  case (Cons nv nvs)
  obtain n v where nv: "nv = (n, v)" by (cases nv)
  from Cons.prems(6) nv obtain smp where
    smp: "instrument_find_sample (Some inst) n v = Some smp"
    by auto
  have c: "queue_contents (event_queue s)
             = note_on_event ip (n, v) # (map (note_on_event ip) nvs @ rest)"
    using Cons.prems(3) nv by simp
  from rt_queue_pop_Cons [OF Cons.prems(2) c] obtain q where
    q: "rt_queue_pop (event_queue s) = (Some (note_on_event ip (n, v)), q)"
       "queue_contents q = map (note_on_event ip) nvs @ rest" "queue_wf q"
    by blast
  let ?t = "s\<lparr>event_queue := q\<rparr>"
  let ?j = "find_available_voice s"
  let ?v = "(voice_trigger_rt (voices s ?j) (Some smp) n v (Some (envelope inst)))
              \<lparr>v_instrument := Some ip\<rparr>"
  let ?s = "?t\<lparr>voices := (voices ?t)(?j := ?v)\<rparr>"
  have step: "process_event h ?t (note_on_event ip (n, v)) = Some ?s"
    using process_event_place [OF Cons.prems(1) smp, of ?t]
    by (simp add: event_queue_update_simps)
  have lt: "length ns < pool_size s" using Cons.prems(5) by simp
  have j: "?j = length ns" using Cons.prems(4) lt by (rule filled_next)
  have lt': "length ns < MS_MAX_VOICES" using lt pool_size_le [of s] by simp
  have f0: "filled ?t ns" using Cons.prems(4) by (simp add: event_queue_update_simps)
  have f: "filled ?s (ns @ [n])"
    unfolding j using f0 lt' by (rule filled_place) (simp_all add: voice_trigger_fields)
  have 2: "queue_wf (event_queue ?s)" using q(3) by simp
  have 3: "queue_contents (event_queue ?s) = map (note_on_event ip) nvs @ rest"
    using q(2) by simp
  have 5: "length (ns @ [n]) + length nvs \<le> pool_size ?s"
    using Cons.prems(5) by (simp add: pool_size_def)
  have 6: "\<forall>nv \<in> set nvs. instrument_find_sample (Some inst) (fst nv) (snd nv) \<noteq> None"
    using Cons.prems(6) by simp
  from Cons.IH [OF Cons.prems(1) 2 3 f 5 6] obtain s' where
    "process_events_loop (length nvs) h ?s = Some s'"
    "config s' = config ?s" "filled s' ((ns @ [n]) @ map fst nvs)"
    "queue_wf (event_queue s')" "queue_contents (event_queue s') = rest"
    by blast
  with q(1) step nv show ?case by simp
qed

lemma filled_idle:
  "(\<forall>j < MS_MAX_VOICES. \<not> active (voices s j)) \<Longrightarrow> filled s []"
  by (simp add: filled_def)

lemma example_queued_queue:
  "queue_wf (event_queue example_sampler_queued)"
  "queue_contents (event_queue example_sampler_queued)
     = map (note_on_event 7) (example_notes @ [(68, 100)])"
proof -
  let ?q = "event_queue (ms_sampler_create example_config)"
  have wf: "queue_wf ?q"
    by (simp add: queue_wf_def ms_sampler_create_def RT_EVENT_QUEUE_SIZE_def)
  have nil: "queue_contents ?q = []"
    by (rule queue_contents_empty) (simp add: ms_sampler_create_def)
  have "length (queue_contents ?q) + length (map (note_on_event 7) (example_notes @ [(68, 100)]))
          \<le> RT_EVENT_QUEUE_SIZE - 1"
    by (simp add: nil example_notes_def RT_EVENT_QUEUE_SIZE_def)
  from push_all_fits [OF wf this] nil
  show "queue_wf (event_queue example_sampler_queued)"
    "queue_contents (event_queue example_sampler_queued)
       = map (note_on_event 7) (example_notes @ [(68, 100)])"
    by (simp_all add: example_sampler_queued_def)
qed

lemma example_notes_resolve:
  "\<forall>nv \<in> set (example_notes @ [(68, 100)]).
     instrument_find_sample (Some example_instrument_rt) (fst nv) (snd nv) \<noteq> None"
  by (simp add: example_notes_def instrument_find_sample_def
        example_instrument_rt_def example_sample_a_def example_sample_b_def
        example_sample_c_def example_meta_def note_distance_def)

text \<open>
  Claim C5. Let the polyphony \<open>P\<close> of a sampler be between 1 and \<open>MS_MAX_VOICES\<close>, all
  voices idle, and \<open>P + 1\<close> note-ons for distinct notes each resolve to a sample. In
  \<open>sampler.c\<close>, the first \<open>P\<close> calls of \<open>ms_note_on\<close> fill the slots \<open>0 .. P - 1\<close> in index
  order and the last call takes slot 0: it returns that slot's voice identifier, exactly
  \<open>P\<close> voices are active before and after it, the other slots are unchanged, and slot 0
  holds the newest note in place of the first one. In \<open>sampler_rt.c\<close>, \<open>process_events\<close>
  on the queue of the \<open>P + 1\<close> events does the same: after the first \<open>P\<close> events the pool
  is filled in index order, and the last event replaces the note of slot 0 only.
\<close>

theorem polyphony_steals_slot_zero:
  assumes store: "instruments h ip = Some inst" "sampler inst = Some sp" "samplers h sp = Some s"
    and idle: "\<forall>j < MS_MAX_VOICES. \<not> active (voices s j)"
    and poly: "0 < max_polyphony (config s)" "max_polyphony (config s) \<le> MS_MAX_VOICES"
    and len: "length nvs = max_polyphony (config s)"
    and res: "\<forall>nv \<in> set (nvs @ [(n, v)]).
                instrument_find_sample (Some inst) (fst nv) (snd nv) \<noteq> None"
    and dist: "distinct (map fst (nvs @ [(n, v)]))"
    and queue: "queue_wf (event_queue s)"
               "queue_contents (event_queue s) = map (note_on_event ip) (nvs @ [(n, v)])"
  shows "(\<exists>h1 s1 h2 s2.
            ms_note_on_all h (Some ip) nvs = Some (replicate (length nvs) MS_SUCCESS, h1)
            \<and> samplers h1 sp = Some s1 \<and> filled s1 (map fst nvs)
            \<and> active_count s1 = max_polyphony (config s)
            \<and> ms_note_on h1 (Some ip) n v (Some c)
                = Some (MS_SUCCESS, h2, Some (voice_id (voices s1 0)))
            \<and> samplers h2 sp = Some s2 \<and> filled s2 ((map fst nvs)[0 := n])
            \<and> active_count s2 = max_polyphony (config s)
            \<and> (\<forall>j. j \<noteq> 0 \<longrightarrow> voices s2 j = voices s1 j)
            \<and> v_note (voices s1 0) = fst (nvs ! 0) \<and> v_note (voices s2 0) = n
            \<and> n \<noteq> fst (nvs ! 0))
       \<and> (\<exists>s1 s2.
            process_events_loop (length nvs) h s = Some s1
            \<and> filled s1 (map fst nvs) \<and> active_count s1 = max_polyphony (config s)
            \<and> process_events h s = Some s2 \<and> filled s2 ((map fst nvs)[0 := n])
            \<and> active_count s2 = max_polyphony (config s)
            \<and> (\<forall>j. j \<noteq> 0 \<longrightarrow> voices s2 j = voices s1 j)
            \<and> v_note (voices s1 0) = fst (nvs ! 0) \<and> v_note (voices s2 0) = n
            \<and> queue_contents (event_queue s2) = [])"
proof -
  let ?P = "max_polyphony (config s)"
  let ?ns = "map fst nvs"
  have P: "pool_size s = ?P" using poly by (simp add: pool_size_def)
  have f0: "filled s []" using idle by (rule filled_idle)
  have fit: "length [] + length nvs \<le> pool_size s" using len P by simp
  have res1: "\<forall>nv \<in> set nvs. instrument_find_sample (Some inst) (fst nv) (snd nv) \<noteq> None"
    using res by simp
  from res obtain smp where smp: "instrument_find_sample (Some inst) n v = Some smp" by auto
  have ne: "0 < length ?ns" "length ?ns = ?P" "length ?ns \<le> MS_MAX_VOICES"
    using len poly by simp_all
  have first: "?ns ! 0 = fst (nvs ! 0)" using ne(1) by simp
  have "fst (nvs ! 0) \<in> set ?ns" using ne(1) by (metis first nth_mem)
  with dist have fresh: "n \<noteq> fst (nvs ! 0)" by auto
  have len': "length (?ns[0 := n]) \<le> MS_MAX_VOICES" "length (?ns[0 := n]) = ?P"
    using ne by simp_all
  have core: "\<exists>h1 s1 h2 s2.
            ms_note_on_all h (Some ip) nvs = Some (replicate (length nvs) MS_SUCCESS, h1)
            \<and> samplers h1 sp = Some s1 \<and> filled s1 ?ns \<and> active_count s1 = ?P
            \<and> ms_note_on h1 (Some ip) n v (Some c)
                = Some (MS_SUCCESS, h2, Some (voice_id (voices s1 0)))
            \<and> samplers h2 sp = Some s2 \<and> filled s2 (?ns[0 := n]) \<and> active_count s2 = ?P
            \<and> (\<forall>j. j \<noteq> 0 \<longrightarrow> voices s2 j = voices s1 j)
            \<and> v_note (voices s1 0) = fst (nvs ! 0) \<and> v_note (voices s2 0) = n
            \<and> n \<noteq> fst (nvs ! 0)"
  proof -
    from ms_note_on_all_fill [OF store f0 fit res1] obtain h1 s1 where
      h1: "ms_note_on_all h (Some ip) nvs = Some (replicate (length nvs) MS_SUCCESS, h1)"
          "instruments h1 = instruments h" "samplers h1 sp = Some s1"
          "config s1 = config s" "filled s1 ?ns"
      by auto
    have i1: "instruments h1 ip = Some inst" using h1(2) store(1) by simp
    have full: "length ?ns = pool_size s1" using ne(2) P h1(4) by (simp add: pool_size_def)
    have j: "find_available_voice s1 = 0" using h1(5) full by (rule filled_full)
    let ?v = "(voice_trigger (voices s1 0) (Some smp) n v (Some (envelope inst)))
                \<lparr>v_instrument := Some ip\<rparr>"
    let ?s2 = "s1\<lparr>voices := (voices s1)(0 := ?v)\<rparr>"
    let ?h2 = "h1\<lparr>samplers := (samplers h1)(sp \<mapsto> ?s2)\<rparr>"
    have call: "ms_note_on h1 (Some ip) n v (Some c)
                  = Some (MS_SUCCESS, ?h2, Some (voice_id (voices s1 0)))"
      using ms_note_on_place [OF i1 store(2) h1(3) smp, of "Some c"] by (simp add: j)
    have f2: "filled ?s2 (?ns[0 := n])"
      using h1(5) ne(1) by (rule filled_steal) (simp_all add: voice_trigger_fields)
    have a1: "active_count s1 = ?P" using filled_active_count [OF h1(5) ne(3)] ne(2) by simp
    have a2: "active_count ?s2 = ?P" using filled_active_count [OF f2 len'(1)] len'(2) by simp
    have n1: "v_note (voices s1 0) = fst (nvs ! 0)"
      using h1(5) ne(1) first by (simp add: filled_def)
    have n2: "v_note (voices ?s2 0) = n" by (simp add: voice_trigger_fields)
    have same: "\<forall>j. j \<noteq> 0 \<longrightarrow> voices ?s2 j = voices s1 j" by simp
    have "samplers ?h2 sp = Some ?s2" by simp
    with h1(1,3,5) a1 call f2 a2 same n1 n2 fresh show ?thesis by blast
  qed
  have rt: "\<exists>s1 s2.
            process_events_loop (length nvs) h s = Some s1
            \<and> filled s1 ?ns \<and> active_count s1 = ?P
            \<and> process_events h s = Some s2 \<and> filled s2 (?ns[0 := n])
            \<and> active_count s2 = ?P
            \<and> (\<forall>j. j \<noteq> 0 \<longrightarrow> voices s2 j = voices s1 j)
            \<and> v_note (voices s1 0) = fst (nvs ! 0) \<and> v_note (voices s2 0) = n
            \<and> queue_contents (event_queue s2) = []"
  proof -
    have c: "queue_contents (event_queue s)
               = map (note_on_event ip) nvs @ [note_on_event ip (n, v)]"
      using queue(2) by simp
    from process_events_loop_fill [OF store(1) queue(1) c f0 fit res1] obtain s1 where
      s1: "process_events_loop (length nvs) h s = Some s1" "config s1 = config s"
          "filled s1 ?ns" "queue_wf (event_queue s1)"
          "queue_contents (event_queue s1) = [note_on_event ip (n, v)]"
      by auto
    from rt_queue_pop_Cons [OF s1(4,5)] obtain q where
      q: "rt_queue_pop (event_queue s1) = (Some (note_on_event ip (n, v)), q)"
         "queue_contents q = []" "queue_wf q"
      by blast
    let ?t = "s1\<lparr>event_queue := q\<rparr>"
    have full: "length ?ns = pool_size s1" using ne(2) P s1(2) by (simp add: pool_size_def)
    have j: "find_available_voice s1 = 0" using s1(3) full by (rule filled_full)
    let ?v = "(voice_trigger_rt (voices s1 0) (Some smp) n v (Some (envelope inst)))
                \<lparr>v_instrument := Some ip\<rparr>"
    let ?s2 = "?t\<lparr>voices := (voices ?t)(0 := ?v)\<rparr>"
    have step: "process_event h ?t (note_on_event ip (n, v)) = Some ?s2"
      using process_event_place [OF store(1) smp, of ?t]
      by (simp add: event_queue_update_simps j)
    have e2: "queue_wf (event_queue ?s2)" "queue_contents (event_queue ?s2) = []"
      using q by simp_all
    have len256: "RT_EVENT_QUEUE_SIZE = length nvs + (Suc 0 + (RT_EVENT_QUEUE_SIZE - Suc (length nvs)))"
      using len poly by (simp add: RT_EVENT_QUEUE_SIZE_def MS_MAX_VOICES_def)
    have one: "process_events_loop (Suc 0) h s1 = Some ?s2"
      using q(1) step by simp
    have "process_events h s
            = Option.bind (process_events_loop (length nvs) h s)
                (process_events_loop (Suc 0 + (RT_EVENT_QUEUE_SIZE - Suc (length nvs))) h)"
      unfolding process_events_def
      by (subst len256) (rule process_events_loop_add)
    also have "\<dots> = process_events_loop (Suc 0 + (RT_EVENT_QUEUE_SIZE - Suc (length nvs))) h s1"
      using s1(1) by simp
    also have "\<dots> = Option.bind (process_events_loop (Suc 0) h s1)
                        (process_events_loop (RT_EVENT_QUEUE_SIZE - Suc (length nvs)) h)"
      by (rule process_events_loop_add)
    also have "\<dots> = process_events_loop (RT_EVENT_QUEUE_SIZE - Suc (length nvs)) h ?s2"
      using one by simp
    also have "\<dots> = Some ?s2"
      using e2 by (rule process_events_loop_empty)
    finally have all: "process_events h s = Some ?s2" .
    have ft: "filled ?t ?ns" using s1(3) by (simp add: event_queue_update_simps)
    have f2: "filled ?s2 (?ns[0 := n])"
      using ft ne(1) by (rule filled_steal) (simp_all add: voice_trigger_fields)
    have a1: "active_count s1 = ?P" using filled_active_count [OF s1(3) ne(3)] ne(2) by simp
    have a2: "active_count ?s2 = ?P" using filled_active_count [OF f2 len'(1)] len'(2) by simp
    have n1: "v_note (voices s1 0) = fst (nvs ! 0)"
      using s1(3) ne(1) first by (simp add: filled_def)
    have n2: "v_note (voices ?s2 0) = n" by (simp add: voice_trigger_fields)
    have same: "\<forall>j. j \<noteq> 0 \<longrightarrow> voices ?s2 j = voices s1 j" by simp
    from s1(1,3) a1 all f2 a2 same n1 n2 e2(2) show ?thesis by blast
  qed
  from core rt show ?thesis by blast
qed

theorem polyphony_steals_slot_zero_witness:
  "(\<exists>h1 s1 h2 s2.
      ms_note_on_all example_heap_queued (Some 7) example_notes
        = Some (replicate 8 MS_SUCCESS, h1)
      \<and> samplers h1 1 = Some s1 \<and> active_count s1 = 8
      \<and> ms_note_on h1 (Some 7) 68 100 (Some 0)
          = Some (MS_SUCCESS, h2, Some (voice_id (voices s1 0)))
      \<and> samplers h2 1 = Some s2 \<and> active_count s2 = 8
      \<and> v_note (voices s1 0) = 60 \<and> v_note (voices s2 0) = 68)
   \<and> (\<exists>s1 s2.
      process_events_loop 8 example_heap_queued example_sampler_queued = Some s1
      \<and> active_count s1 = 8
      \<and> process_events example_heap_queued example_sampler_queued = Some s2
      \<and> active_count s2 = 8
      \<and> v_note (voices s1 0) = 60 \<and> v_note (voices s2 0) = 68)"
proof -
  have a1: "instruments example_heap_queued 7 = Some example_instrument_rt"
    and a3: "samplers example_heap_queued 1 = Some example_sampler_queued"
    by (simp_all add: example_heap_queued_def)
  have a2: "sampler example_instrument_rt = Some 1"
    by (simp add: example_instrument_rt_def ms_instrument_create_rt_def)
  have cfg: "max_polyphony (config example_sampler_queued) = 8"
    by (simp add: example_sampler_queued_def ms_sampler_create_def example_config_def)
  have idle: "\<forall>j < MS_MAX_VOICES. \<not> active (voices example_sampler_queued j)"
    by (simp add: example_sampler_queued_def ms_sampler_create_def voice_init_def
          zero_voice_def)
  have poly: "0 < max_polyphony (config example_sampler_queued)"
    "max_polyphony (config example_sampler_queued) \<le> MS_MAX_VOICES"
    by (simp_all add: cfg MS_MAX_VOICES_def)
  have len: "length example_notes = max_polyphony (config example_sampler_queued)"
    by (simp add: cfg example_notes_def)
  have dist: "distinct (map fst (example_notes @ [(68, 100)]))"
    by (simp add: example_notes_def)
  have first: "fst (example_notes ! 0) = 60" "length example_notes = 8"
    by (simp_all add: example_notes_def)
  from polyphony_steals_slot_zero [OF a1 a2 a3 idle poly len example_notes_resolve dist
         example_queued_queue, of 0]
  show ?thesis unfolding cfg first by blast
qed

section \<open>The voice identifier of a note-on\<close>

lemma example_fresh_sampler:
  "filled (ms_sampler_create example_config) []"
  "pool_size (ms_sampler_create example_config) = 8"
  "voice_id (voices (ms_sampler_create example_config) 0) = 1"
  "queue_wf (event_queue (ms_sampler_create example_config))"
  "queue_contents (event_queue (ms_sampler_create example_config)) = []"
  by (simp_all add: filled_def ms_sampler_create_def example_config_def voice_init_def
        zero_voice_def pool_size_def MS_MAX_VOICES_def queue_wf_def RT_EVENT_QUEUE_SIZE_def
        queue_contents_def)

lemma example_resolves_60:
  "instrument_find_sample (Some example_instrument) 60 100 = Some example_sample_b"
  "instrument_find_sample (Some example_instrument_rt) 60 100 = Some example_sample_b"
  by (simp_all add: instrument_find_sample_def example_instrument_def example_instrument_rt_def
        example_sample_a_def example_sample_b_def example_sample_c_def example_meta_def
        note_distance_def)

text \<open>
  Claim C9 holds for \<open>ms_note_on\<close> of \<open>sampler.c\<close> and fails for \<open>ms_note_on\<close> of
  \<open>sampler_rt.c\<close>, which returns \<open>MS_SUCCESS\<close> and never writes through \<open>voice_id\<close>. On
  a fresh sampler with the cell holding 4242: the first build stores the identifier 1 of
  slot 0, which then plays the note; the real-time build leaves 4242 in the cell, and
  the note is played by slot 0, whose identifier is 1, at the next \<open>process_events\<close>.
\<close>

theorem note_on_voice_id_output:
  "(\<exists>h' s'. ms_note_on example_heap (Some 7) 60 100 (Some 4242) = Some (MS_SUCCESS, h', Some 1)
        \<and> samplers h' 1 = Some s'
        \<and> active (voices s' 0) \<and> v_note (voices s' 0) = 60 \<and> voice_id (voices s' 0) = 1)
   \<and> (\<exists>h' s' s''. ms_note_on_rt example_heap_rt (Some 7) 60 100 (Some 4242)
                    = Some (MS_SUCCESS, h', Some 4242)
        \<and> samplers h' 1 = Some s' \<and> process_events h' s' = Some s''
        \<and> active (voices s'' 0) \<and> v_note (voices s'' 0) = 60 \<and> voice_id (voices s'' 0) = 1)"
proof -
  let ?s = "ms_sampler_create example_config"
  have core: "\<exists>h' s'. ms_note_on example_heap (Some 7) 60 100 (Some 4242)
                 = Some (MS_SUCCESS, h', Some 1)
        \<and> samplers h' 1 = Some s'
        \<and> active (voices s' 0) \<and> v_note (voices s' 0) = 60 \<and> voice_id (voices s' 0) = 1"
  proof -
    have a: "instruments example_heap 7 = Some example_instrument"
      "samplers example_heap 1 = Some ?s"
      by (simp_all add: example_heap_def)
    have b: "sampler example_instrument = Some 1"
      by (simp add: example_instrument_def ms_instrument_create_def)
    have j: "find_available_voice ?s = 0"
      using filled_next [OF example_fresh_sampler(1)] by (simp add: example_fresh_sampler)
    from ms_note_on_place [OF a(1) b a(2) example_resolves_60(1), of "Some 4242"]
    show ?thesis
      by (simp add: j example_fresh_sampler voice_trigger_fields)
  qed
  have rt: "\<exists>h' s' s''. ms_note_on_rt example_heap_rt (Some 7) 60 100 (Some 4242)
                    = Some (MS_SUCCESS, h', Some 4242)
        \<and> samplers h' 1 = Some s' \<and> process_events h' s' = Some s''
        \<and> active (voices s'' 0) \<and> v_note (voices s'' 0) = 60 \<and> voice_id (voices s'' 0) = 1"
  proof -
    have a: "instruments example_heap_rt 7 = Some example_instrument_rt"
      "samplers example_heap_rt 1 = Some ?s"
      by (simp_all add: example_heap_rt_def)
    have b: "sampler example_instrument_rt = Some 1"
      by (simp add: example_instrument_rt_def ms_instrument_create_rt_def)
    have ne: "length (queue_contents (event_queue ?s)) \<noteq> RT_EVENT_QUEUE_SIZE - 1"
      by (simp add: example_fresh_sampler RT_EVENT_QUEUE_SIZE_def)
    from ms_note_on_rt_ok [OF a(1) b a(2) example_fresh_sampler(4) ne, of 60 100 "Some 4242"]
    obtain q where
      q: "ms_note_on_rt example_heap_rt (Some 7) 60 100 (Some 4242)
            = Some (MS_SUCCESS,
                example_heap_rt\<lparr>samplers := (samplers example_heap_rt)
                                   (1 \<mapsto> ?s\<lparr>event_queue := q\<rparr>)\<rparr>, Some 4242)"
         "queue_contents q = [note_on_event 7 (60, 100)]" "queue_wf q"
      by (auto simp: example_fresh_sampler)
    let ?h = "example_heap_rt\<lparr>samplers := (samplers example_heap_rt)
                                   (1 \<mapsto> ?s\<lparr>event_queue := q\<rparr>)\<rparr>"
    let ?t = "?s\<lparr>event_queue := q\<rparr>"
    have i: "instruments ?h 7 = Some example_instrument_rt" using a(1) by simp
    have c: "queue_contents (event_queue ?t) = [note_on_event 7 (60, 100)]"
      and w: "queue_wf (event_queue ?t)"
      using q(2,3) by simp_all
    from rt_queue_pop_Cons [OF w c] obtain q' where
      q': "rt_queue_pop (event_queue ?t) = (Some (note_on_event 7 (60, 100)), q')"
          "queue_contents q' = []" "queue_wf q'"
      by blast
    let ?u = "?t\<lparr>event_queue := q'\<rparr>"
    have j: "find_available_voice ?s = 0"
      using filled_next [OF example_fresh_sampler(1)] by (simp add: example_fresh_sampler)
    let ?v = "(voice_trigger_rt (voices ?u 0) (Some example_sample_b) 60 100
                 (Some (envelope example_instrument_rt)))\<lparr>v_instrument := Some 7\<rparr>"
    let ?w = "?u\<lparr>voices := (voices ?u)(0 := ?v)\<rparr>"
    have step: "process_event ?h ?u (note_on_event 7 (60, 100)) = Some ?w"
      using process_event_place [OF i example_resolves_60(2), of ?u]
      by (simp add: event_queue_update_simps j)
    have one: "process_events_loop (Suc 0) ?h ?t = Some ?w"
      using q'(1) step by simp
    have e: "queue_wf (event_queue ?w)" "queue_contents (event_queue ?w) = []"
      using q'(2,3) by simp_all
    have "process_events ?h ?t
            = Option.bind (process_events_loop (Suc 0) ?h ?t)
                (process_events_loop (RT_EVENT_QUEUE_SIZE - Suc 0) ?h)"
      using process_events_loop_add [of "Suc 0" "RT_EVENT_QUEUE_SIZE - Suc 0" ?h ?t]
      by (simp add: process_events_def RT_EVENT_QUEUE_SIZE_def)
    also have "\<dots> = Some ?w"
      using one process_events_loop_empty [OF e] by simp
    finally have p: "process_events ?h ?t = Some ?w" .
    have v: "active (voices ?w 0)" "v_note (voices ?w 0) = 60" "voice_id (voices ?w 0) = 1"
      by (simp_all add: voice_trigger_fields example_fresh_sampler)
    have "samplers ?h 1 = Some ?t" by simp
    with q(1) p v show ?thesis by blast
  qed
  from core rt show ?thesis by blast
qed

section \<open>The render call\<close>

lemma add_at_Some:
  "i < length xs \<Longrightarrow> \<exists>ys. add_at xs i x = Some ys \<and> length ys = length xs"
  by (simp add: add_at_def)

lemma mix_defined:
  assumes "if stereo then 2 * i + 1 < length out else i < length out"
  shows "\<exists>out'. mix out i stereo x = Some out' \<and> length out' = length out"
  using assms by (auto simp: mix_def add_at_def)

lemma interpolate_defined:
  assumes ok: "sample_ok smp" and p: "0 \<le> position" "position < real (num_frames smp)"
  shows "\<exists>y. interpolate smp position = Some y"
proof -
  let ?i = "nat \<lfloor>position\<rfloor>"
  have nf: "num_frames smp < 2 ^ 64" using ok by (simp add: sample_ok_def)
  then have "real (num_frames smp) < 2 ^ 64"
    by (metis of_nat_less_iff of_nat_numeral of_nat_power)
  with p have ts: "to_size_t position = Some ?i" by (simp add: to_size_t_def)
  have "\<lfloor>position\<rfloor> < int (num_frames smp)" using p(2) by (simp add: floor_less_iff)
  then have i: "?i < num_frames smp" using p(1) by linarith
  show ?thesis
  proof (cases "s_channels smp = 1")
    case True
    with ok have "num_frames smp \<le> length (data smp)" by (simp add: sample_ok_def)
    with i True ts show ?thesis
      by (simp add: interpolate_def read_at_def Let_def)
  next
    case False
    with ok have "2 * num_frames smp \<le> length (data smp) + 1" by (simp add: sample_ok_def)
    with i False ts show ?thesis
      by (simp add: interpolate_def read_at_def Let_def)
  qed
qed


lemma voice_loop_defined:
  "sample_ok smp \<Longrightarrow> 0 \<le> position \<Longrightarrow> 0 \<le> speed \<Longrightarrow>
   (if stereo then 2 * (i + k) \<le> length out else i + k \<le> length out) \<Longrightarrow>
   \<exists>v' out' position'.
      voice_loop envp smp speed gain stereo k i v out position = Some (v', out', position')
      \<and> length out' = length out \<and> 0 \<le> position'
      \<and> v_sample v' = v_sample v \<and> playback_speed v' = playback_speed v
      \<and> pitch_bend_multiplier v' = pitch_bend_multiplier v"
proof (induction k arbitrary: i v out position)
  case 0
  then show ?case by simp
next
  case (Suc k)
  let ?valid = "loop_enabled (meta smp) \<and> loop_start (meta smp) < loop_end (meta smp)"
  show ?case
  proof (cases "real (num_frames smp) \<le> position \<and> \<not> ?valid")
    case True
    then show ?thesis using Suc.prems(2) by simp
  next
    case False
    let ?p1 = "if real (num_frames smp) \<le> position then real (loop_start (meta smp))
               else position"
    have p1: "0 \<le> ?p1" "?p1 < real (num_frames smp)"
      using False Suc.prems(1,2) by (auto simp: sample_ok_def)
    from interpolate_defined [OF Suc.prems(1) p1] obtain y where
      y: "interpolate smp ?p1 = Some y"
      by blast
    obtain lv env' where e: "envp (v_envelope v) = (lv, env')"
      by (cases "envp (v_envelope v)")
    have "if stereo then 2 * i + 1 < length out else i < length out"
      using Suc.prems(4) by (simp split: if_splits)
    from mix_defined [OF this, of "y * lv * gain"] obtain out' where
      o: "mix out i stereo (y * lv * gain) = Some out'" "length out' = length out"
      by blast
    have p2: "0 \<le> ?p1 + speed" using p1(1) Suc.prems(3) by simp
    have room: "if stereo then 2 * (Suc i + k) \<le> length out' else Suc i + k \<le> length out'"
      using Suc.prems(4) o(2) by (simp split: if_splits)
    from Suc.IH [OF Suc.prems(1) p2 Suc.prems(3) room, of "v\<lparr>v_envelope := env'\<rparr>"]
    obtain v' out'' position' where
      r: "voice_loop envp smp speed gain stereo k (Suc i) (v\<lparr>v_envelope := env'\<rparr>) out'
            (?p1 + speed) = Some (v', out'', position')"
         "length out'' = length out'" "0 \<le> position'"
         "v_sample v' = v_sample v" "playback_speed v' = playback_speed v"
         "pitch_bend_multiplier v' = pitch_bend_multiplier v"
      by auto
    show ?thesis
    proof (cases "envelope_is_active env'")
      case True
      with False y e o r show ?thesis by (simp add: Let_def)
    next
      case inactive: False
      with False y e o p2 show ?thesis by (simp add: Let_def)
    qed
  qed
qed

lemma stereo_room:
  assumes "1 \<le> chans" "n * chans \<le> length out"
  shows "if chans \<noteq> 1 then 2 * (0 + n) \<le> length out else 0 + n \<le> length out"
    and "if chans = 2 then 2 * (0 + n) \<le> length out else 0 + n \<le> length out"
proof -
  have one: "n \<le> length out"
  proof -
    have "n * 1 \<le> n * chans" using assms(1) by (rule mult_le_mono2)
    then have "n \<le> n * chans" by (simp only: mult_1_right)
    then show ?thesis using assms(2) by (rule order_trans)
  qed
  have two: "2 * n \<le> length out" if "2 \<le> chans"
  proof -
    have "n * 2 \<le> n * chans" using that by (rule mult_le_mono2)
    then have "2 * n \<le> n * chans" by (simp only: mult.commute)
    then show ?thesis using assms(2) by (rule order_trans)
  qed
  show "if chans \<noteq> 1 then 2 * (0 + n) \<le> length out else 0 + n \<le> length out"
  proof (cases "chans = 1")
    case True
    with one show ?thesis by simp
  next
    case False
    with assms(1) have "2 \<le> chans" by simp
    from two [OF this] False show ?thesis by simp
  qed
  show "if chans = 2 then 2 * (0 + n) \<le> length out else 0 + n \<le> length out"
  proof (cases "chans = 2")
    case True
    then have "2 \<le> chans" by simp
    from two [OF this] True show ?thesis by simp
  next
    case False
    with one show ?thesis by simp
  qed
qed

lemma voice_process_defined:
  assumes "voice_ok v" "1 \<le> chans" "n * chans \<le> length out"
  shows "\<exists>v' out'. voice_process v out n chans = Some (v', out')
           \<and> length out' = length out \<and> voice_ok v'
           \<and> pitch_bend_multiplier v' = pitch_bend_multiplier v"
proof (cases "v_sample v")
  case None
  with assms(1) show ?thesis by (simp add: voice_process_def)
next
  case (Some smp)
  show ?thesis
  proof (cases "active v")
    case False
    with Some assms(1) show ?thesis by (simp add: voice_process_def)
  next
    case True
    from assms(1) Some have ok: "sample_ok smp" "0 \<le> playback_position v" "0 \<le> playback_speed v"
      by (simp_all add: voice_ok_def)
    from voice_loop_defined [OF ok stereo_room(1) [OF assms(2,3)],
           of envelope_process "real (v_velocity v) / 127" v]
    obtain v' out' position' where
      "voice_loop envelope_process smp (playback_speed v) (real (v_velocity v) / 127)
         (chans \<noteq> 1) n 0 v out (playback_position v) = Some (v', out', position')"
      "length out' = length out" "0 \<le> position'" "v_sample v' = v_sample v"
      "playback_speed v' = playback_speed v"
      "pitch_bend_multiplier v' = pitch_bend_multiplier v"
      by blast
    with True Some ok show ?thesis
      by (simp add: voice_process_def voice_ok_def)
  qed
qed

lemma voice_process_rt_defined:
  assumes "voice_ok v" "1 \<le> chans" "n * chans \<le> length out"
  shows "\<exists>v' out'. voice_process_rt v out n chans = Some (v', out')
           \<and> length out' = length out \<and> voice_ok v'
           \<and> pitch_bend_multiplier v' = pitch_bend_multiplier v"
proof (cases "v_sample v")
  case None
  with assms(1) show ?thesis by (simp add: voice_process_rt_def)
next
  case (Some smp)
  show ?thesis
  proof (cases "active v")
    case False
    with Some assms(1) show ?thesis by (simp add: voice_process_rt_def)
  next
    case True
    from assms(1) Some have ok: "sample_ok smp" "0 \<le> playback_position v" "0 \<le> playback_speed v"
      by (simp_all add: voice_ok_def)
    from voice_loop_defined [OF ok stereo_room(2) [OF assms(2,3)],
           of envelope_process_rt "velocity_gain v" v]
    obtain v' out' position' where
      "voice_loop envelope_process_rt smp (playback_speed v) (velocity_gain v)
         (chans = 2) n 0 v out (playback_position v) = Some (v', out', position')"
      "length out' = length out" "0 \<le> position'" "v_sample v' = v_sample v"
      "playback_speed v' = playback_speed v"
      "pitch_bend_multiplier v' = pitch_bend_multiplier v"
      by blast
    with True Some ok show ?thesis
      by (simp add: voice_process_rt_def voice_ok_def)
  qed
qed

lemma process_voices_defined:
  assumes vp: "\<And>v out. voice_ok v \<Longrightarrow> length out = L \<Longrightarrow>
                 \<exists>v' out'. vp v out n chans = Some (v', out') \<and> length out' = L \<and> voice_ok v'
                    \<and> pitch_bend_multiplier v' = pitch_bend_multiplier v"
  shows "(\<forall>i \<in> set js. active (vs i) \<longrightarrow> voice_ok (vs i)) \<Longrightarrow> length out = L \<Longrightarrow>
         \<exists>vs' out'. process_voices vp js n chans vs out = Some (vs', out') \<and> length out' = L"
proof (induction js arbitrary: vs out)
  case Nil
  then show ?case by simp
next
  case (Cons j js)
  show ?case
  proof (cases "active (vs j)")
    case False
    with Cons.IH [of vs out] Cons.prems show ?thesis by simp
  next
    case True
    with Cons.prems have "voice_ok (vs j)" by simp
    from vp [OF this Cons.prems(2)] obtain v' out' where
      v': "vp (vs j) out n chans = Some (v', out')" "length out' = L" "voice_ok v'"
      by blast
    have "\<forall>i \<in> set js. active ((vs(j := v')) i) \<longrightarrow> voice_ok ((vs(j := v')) i)"
      using Cons.prems(1) v'(3) by simp
    from Cons.IH [OF this v'(2)] obtain vs' out'' where
      "process_voices vp js n chans (vs(j := v')) out' = Some (vs', out'')" "length out'' = L"
      by blast
    with v'(1) True show ?thesis by simp
  qed
qed

lemma clear_output_defined:
  assumes "n * chans \<le> length out" "length out < 2 ^ 62"
  shows "\<exists>out1. clear_output out (((n * chans) mod 2 ^ 64 * 4) mod 2 ^ 64) = Some out1
           \<and> length out1 = length out"
proof -
  have lt: "n * chans < 2 ^ 62" using assms by (rule le_less_trans)
  then have "n * chans < 2 ^ 64" by (rule less_trans) simp
  then have a: "(n * chans) mod 2 ^ 64 = n * chans" by (rule mod_less)
  have "n * chans * 4 < 2 ^ 62 * 4" using lt by (simp only: mult_less_cancel2) simp
  then have "n * chans * 4 < 2 ^ 64" by simp
  then have b: "(n * chans * 4) mod 2 ^ 64 = n * chans * 4" by (rule mod_less)
  have c: "n * chans * 4 div 4 = n * chans" by simp
  show ?thesis
    unfolding a b clear_output_def c Let_def using assms(1) by simp
qed

lemma instrument_find_sample_mem:
  assumes "instrument_find_sample (Some inst) n v = Some smp"
  shows "smp \<in> set (samples inst)"
proof -
  obtain b d where bd: "find_velocity_loop n v (samples inst) (None, 128) = (b, d)"
    by (cases "find_velocity_loop n v (samples inst) (None, 128)")
  note inv1 = find_velocity_loop_inv [OF bd]
  show ?thesis
  proof (cases b)
    case (Some x)
    with inv1 have "x \<in> set (samples inst)" by auto
    with assms bd Some show ?thesis by (simp add: instrument_find_sample_def)
  next
    case None
    obtain b' d' where bd': "find_closest_loop n (samples inst) (None, d) = (b', d')"
      by (cases "find_closest_loop n (samples inst) (None, d)")
    note inv2 = find_closest_loop_inv [OF bd']
    from assms bd None bd' have "b' = Some smp"
      by (simp add: instrument_find_sample_def split: if_splits)
    with inv2 show ?thesis by auto
  qed
qed

lemma pool_ok_iff:
  "pool_ok s \<longleftrightarrow>
     (\<forall>j < pool_size s. 0 \<le> pitch_bend_multiplier (voices s j)
                         \<and> (active (voices s j) \<longrightarrow> voice_ok (voices s j)))"
  by (auto simp: pool_ok_def list_all_iff)

lemma pool_ok_event_queue: "pool_ok (s\<lparr>event_queue := q\<rparr>) = pool_ok s"
  by (simp add: pool_ok_iff pool_size_def)

lemma voice_release_ok:
  "voice_ok (voice_release v) = voice_ok v"
  "pitch_bend_multiplier (voice_release v) = pitch_bend_multiplier v"
  by (simp_all add: voice_release_def voice_ok_def split: option.splits)

lemma voice_trigger_rt_ok:
  assumes "sample_ok smp" "0 \<le> pitch_bend_multiplier v"
  shows "voice_ok ((voice_trigger_rt v (Some smp) n vel (Some e))\<lparr>v_instrument := ip\<rparr>)"
    and "pitch_bend_multiplier ((voice_trigger_rt v (Some smp) n vel (Some e))
           \<lparr>v_instrument := ip\<rparr>) = pitch_bend_multiplier v"
  using assms table_pos [of n] table_pos [of "root_note (meta smp)"]
  by (simp_all add: voice_trigger_rt_def voice_ok_def Let_def midi_note_to_frequency_rt_def)

lemma process_event_ok:
  assumes "pool_ok s" "event_ok h e"
  shows "\<exists>s'. process_event h s e = Some s' \<and> pool_ok s' \<and> config s' = config s
              \<and> event_queue s' = event_queue s"
proof (cases "event_type e = 0")
  case False
  have "pool_ok (release_matching s (ev_note e) (ev_instrument e))"
    using assms(1)
    by (simp add: pool_ok_iff release_matching_def pool_size_def voice_release_ok)
  with False show ?thesis by (simp add: process_event_def release_matching_def)
next
  case True
  show ?thesis
  proof (cases "ev_instrument e")
    case None
    with True assms(1) show ?thesis by (simp add: process_event_def)
  next
    case (Some ip)
    with True assms(2) obtain inst where
      inst: "instruments h ip = Some inst" "list_all sample_ok (samples inst)"
      by (auto simp: event_ok_def split: option.splits)
    show ?thesis
    proof (cases "instrument_find_sample (Some inst) (ev_note e) (ev_velocity e)")
      case None
      with True Some inst assms(1) show ?thesis by (simp add: process_event_def)
    next
      case found: (Some smp)
      from instrument_find_sample_mem [OF found] inst(2) have ok: "sample_ok smp"
        by (simp add: list_all_iff)
      let ?j = "find_available_voice s"
      let ?v = "(voice_trigger_rt (voices s ?j) (Some smp) (ev_note e) (ev_velocity e)
                   (Some (envelope inst)))\<lparr>v_instrument := Some ip\<rparr>"
      let ?s = "s\<lparr>voices := (voices s)(?j := ?v)\<rparr>"
      have step: "process_event h s e = Some ?s"
        using True Some inst(1) found by (simp add: process_event_def Let_def)
      have "pool_ok ?s"
        unfolding pool_ok_iff
      proof (intro allI impI)
        fix k assume "k < pool_size ?s"
        then have k: "k < pool_size s" by (simp add: pool_size_def)
        show "0 \<le> pitch_bend_multiplier (voices ?s k)
              \<and> (active (voices ?s k) \<longrightarrow> voice_ok (voices ?s k))"
        proof (cases "k = ?j")
          case False
          with assms(1) k show ?thesis by (simp add: pool_ok_iff)
        next
          case same: True
          with assms(1) k have pb: "0 \<le> pitch_bend_multiplier (voices s ?j)"
            by (simp add: pool_ok_iff)
          from voice_trigger_rt_ok [OF ok pb] same pb show ?thesis by simp
        qed
      qed
      with step show ?thesis by simp
    qed
  qed
qed

lemma process_events_loop_ok:
  "queue_wf (event_queue s) \<Longrightarrow> list_all (event_ok h) (queue_contents (event_queue s)) \<Longrightarrow>
   pool_ok s \<Longrightarrow>
   \<exists>s'. process_events_loop k h s = Some s' \<and> pool_ok s' \<and> config s' = config s"
proof (induction k arbitrary: s)
  case 0
  then show ?case by simp
next
  case (Suc k)
  show ?case
  proof (cases "queue_contents (event_queue s)")
    case Nil
    from rt_queue_pop_empty [OF Suc.prems(1) Nil] Suc.prems(3) show ?thesis by simp
  next
    case (Cons e es)
    from rt_queue_pop_Cons [OF Suc.prems(1) Cons] obtain q where
      q: "rt_queue_pop (event_queue s) = (Some e, q)" "queue_contents q = es" "queue_wf q"
      by blast
    have e: "event_ok h e" "list_all (event_ok h) es" using Suc.prems(2) Cons by simp_all
    have "pool_ok (s\<lparr>event_queue := q\<rparr>)" using Suc.prems(3) by (simp add: pool_ok_event_queue)
    from process_event_ok [OF this e(1)] obtain s1 where
      s1: "process_event h (s\<lparr>event_queue := q\<rparr>) e = Some s1" "pool_ok s1"
          "config s1 = config s" "event_queue s1 = q"
      by auto
    have "queue_wf (event_queue s1)" "list_all (event_ok h) (queue_contents (event_queue s1))"
      using s1(4) q(2,3) e(2) by simp_all
    from Suc.IH [OF this s1(2)] obtain s' where
      "process_events_loop k h s1 = Some s'" "pool_ok s'" "config s' = config s1"
      by blast
    with q(1) s1(1,3) show ?thesis by simp
  qed
qed

lemma ms_process_code:
  "ms_process h (Some p) (Some b) m = Some (r, h', o') \<Longrightarrow> r = MS_SUCCESS"
  "ms_process_rt h (Some p) (Some b) m = Some (r, h', o') \<Longrightarrow> r = MS_SUCCESS"
  by (auto simp: ms_process_def ms_process_rt_def Let_def split_beta
        split: Option.bind_splits)

lemma ms_process_null:
  "ms_process h None ob m = Some (MS_ERROR_INVALID_PARAM, h, ob)"
  "ms_process h op None m = Some (MS_ERROR_INVALID_PARAM, h, None)"
  "ms_process_rt h None ob m = Some (MS_ERROR_INVALID_PARAM, h, ob)"
  "ms_process_rt h op None m = Some (MS_ERROR_INVALID_PARAM, h, None)"
  by (simp_all add: ms_process_def ms_process_rt_def split: option.splits)

lemma pool_ok_voices:
  "pool_ok s \<Longrightarrow> \<forall>i \<in> set [0 ..< pool_size s]. active (voices s i) \<longrightarrow> voice_ok (voices s i)"
  by (simp add: pool_ok_iff)

lemma example_samples_ok:
  "sample_ok example_sample_a" "sample_ok example_sample_b" "sample_ok example_sample_c"
  by (simp_all add: sample_ok_def example_sample_a_def example_sample_b_def
        example_sample_c_def example_meta_def)

lemma example_queued_ok:
  "pool_ok example_sampler_queued"
  "list_all (event_ok example_heap_queued) (queue_contents (event_queue example_sampler_queued))"
  "channels (config example_sampler_queued) = 2"
proof -
  show "pool_ok example_sampler_queued"
    by (simp add: pool_ok_iff example_sampler_queued_def ms_sampler_create_def voice_init_def
          zero_voice_def pool_size_def example_config_def)
  show "list_all (event_ok example_heap_queued)
          (queue_contents (event_queue example_sampler_queued))"
    unfolding example_queued_queue(2)
    by (simp add: example_notes_def event_ok_def note_on_event_def example_heap_queued_def
          example_instrument_rt_def example_samples_ok)
  show "channels (config example_sampler_queued) = 2"
    by (simp add: example_sampler_queued_def ms_sampler_create_def example_config_def)
qed

text \<open>
  Claim C8. With a null sampler or a null output buffer, \<open>ms_process\<close> (either build)
  returns \<open>MS_ERROR_INVALID_PARAM\<close> and leaves the store and the buffer as they are. With
  neither null, the only code it returns is \<open>MS_SUCCESS\<close>; and it does return
  it, with a buffer of the same length, on valid arguments: a sampler of the store with
  at least one channel, a buffer of at least \<open>num_frames * channels\<close> floats, a well-formed
  pool, and queued events whose instruments are in the store with well-formed samples.
\<close>

theorem ms_process_infallible:
  assumes "samplers h sp = Some s"
    and "1 \<le> channels (config s)" "n * channels (config s) \<le> length out"
    and "length out < 2 ^ 62"
    and "pool_ok s" "queue_wf (event_queue s)"
    and "list_all (event_ok h) (queue_contents (event_queue s))"
  shows "(\<exists>h' out'. ms_process h (Some sp) (Some out) n = Some (MS_SUCCESS, h', Some out')
                   \<and> length out' = length out)
       \<and> (\<exists>h' out'. ms_process_rt h (Some sp) (Some out) n = Some (MS_SUCCESS, h', Some out')
                   \<and> length out' = length out)
       \<and> (\<forall>r h' o'. ms_process h (Some p) (Some b) m = Some (r, h', o') \<longrightarrow> r = MS_SUCCESS)
       \<and> (\<forall>r h' o'. ms_process_rt h (Some p) (Some b) m = Some (r, h', o') \<longrightarrow> r = MS_SUCCESS)
       \<and> ms_process h None ob m = Some (MS_ERROR_INVALID_PARAM, h, ob)
       \<and> ms_process h op None m = Some (MS_ERROR_INVALID_PARAM, h, None)
       \<and> ms_process_rt h None ob m = Some (MS_ERROR_INVALID_PARAM, h, ob)
       \<and> ms_process_rt h op None m = Some (MS_ERROR_INVALID_PARAM, h, None)"
proof -
  let ?c = "channels (config s)"
  from clear_output_defined [OF assms(3,4)] obtain out1 where
    out1: "clear_output out (((n * ?c) mod 2 ^ 64 * 4) mod 2 ^ 64) = Some out1"
          "length out1 = length out"
    by blast
  have room: "n * ?c \<le> length out1" using assms(3) out1(2) by simp
  have core: "\<exists>h' out'. ms_process h (Some sp) (Some out) n = Some (MS_SUCCESS, h', Some out')
                   \<and> length out' = length out"
  proof -
    have vp: "\<And>v b. voice_ok v \<Longrightarrow> length b = length out \<Longrightarrow>
                 \<exists>v' b'. voice_process v b n ?c = Some (v', b') \<and> length b' = length out
                    \<and> voice_ok v' \<and> pitch_bend_multiplier v' = pitch_bend_multiplier v"
      using voice_process_defined [OF _ assms(2), of _ n] assms(3) by metis
    from process_voices_defined [where vp = voice_process and L = "length out" and n = n
           and chans = ?c, OF vp
           pool_ok_voices [OF assms(5)] out1(2)]
    obtain vs out2 where
      "process_voices voice_process [0 ..< pool_size s] n ?c (voices s) out1 = Some (vs, out2)"
      "length out2 = length out"
      by blast
    with assms(1) out1(1) show ?thesis
      by (simp add: ms_process_def Let_def)
  qed
  have rt: "\<exists>h' out'. ms_process_rt h (Some sp) (Some out) n = Some (MS_SUCCESS, h', Some out')
                   \<and> length out' = length out"
  proof -
    from process_events_loop_ok [OF assms(6,7,5), of RT_EVENT_QUEUE_SIZE] obtain s1 where
      s1: "process_events h s = Some s1" "pool_ok s1" "config s1 = config s"
      by (auto simp: process_events_def)
    have vp: "\<And>v b. voice_ok v \<Longrightarrow> length b = length out \<Longrightarrow>
                 \<exists>v' b'. voice_process_rt v b n ?c = Some (v', b') \<and> length b' = length out
                    \<and> voice_ok v' \<and> pitch_bend_multiplier v' = pitch_bend_multiplier v"
      using voice_process_rt_defined [OF _ assms(2), of _ n] assms(3) by metis
    from process_voices_defined [where vp = voice_process_rt and L = "length out" and n = n
           and chans = ?c, OF vp
           pool_ok_voices [OF s1(2)] out1(2)]
    obtain vs out2 where
      "process_voices voice_process_rt [0 ..< pool_size s1] n ?c (voices s1) out1
         = Some (vs, out2)"
      "length out2 = length out"
      by blast
    with assms(1) out1(1) s1(1,3) show ?thesis
      by (simp add: ms_process_rt_def Let_def)
  qed
  have code: "\<forall>r h' o'. ms_process h (Some p) (Some b) m = Some (r, h', o') \<longrightarrow> r = MS_SUCCESS"
    "\<forall>r h' o'. ms_process_rt h (Some p) (Some b) m = Some (r, h', o') \<longrightarrow> r = MS_SUCCESS"
    using ms_process_code by blast+
  from core rt code show ?thesis by (simp only: ms_process_null)
qed

theorem ms_process_infallible_witness:
  "(\<exists>h' out'. ms_process example_heap_queued (Some 1) (Some (replicate 8 1)) 4
                 = Some (MS_SUCCESS, h', Some out') \<and> length out' = 8)
   \<and> (\<exists>h' out'. ms_process_rt example_heap_queued (Some 1) (Some (replicate 8 1)) 4
                 = Some (MS_SUCCESS, h', Some out') \<and> length out' = 8)
   \<and> ms_process example_heap_queued None (Some [1, 2]) 4
       = Some (MS_ERROR_INVALID_PARAM, example_heap_queued, Some [1, 2])
   \<and> ms_process_rt example_heap_queued (Some 1) None 4
       = Some (MS_ERROR_INVALID_PARAM, example_heap_queued, None)"
proof -
  have a: "samplers example_heap_queued 1 = Some example_sampler_queued"
    by (simp add: example_heap_queued_def)
  have c: "1 \<le> channels (config example_sampler_queued)"
    "4 * channels (config example_sampler_queued) \<le> length (replicate 8 (1::real))"
    "length (replicate 8 (1::real)) < 2 ^ 62"
    by (simp_all add: example_queued_ok(3))
  from ms_process_infallible [OF a c example_queued_ok(1) example_queued_queue(1)
         example_queued_ok(2), where m = 4 and ob = "Some [1, 2]" and op = "Some 1"
         and p = 1 and b = "[]"]
  show ?thesis by simp
qed

section \<open>Round trip of a memory sample\<close>





















end
